theory Spec2Isabelle
  imports Main "HOL-Library.Monad_Syntax"
begin

section \<open>Severity levels (include/log.h: enum tag_log_level)\<close>

text \<open>
  The C enumeration \<^verbatim>\<open>log_level_t\<close> is an integer type: a caller can pass any
  integer, and the code itself tests for values outside the enumerators
  (\<^verbatim>\<open>min_log_level <= LL_INVALID || min_log_level >= LL_CNT\<close>). A level is therefore
  an \<open>int\<close>, and the enumerators are the constants 0 .. 8.
\<close>

type_synonym log_level_t = int

definition LL_INVALID :: log_level_t where "LL_INVALID = 0"
definition LL_RAW :: log_level_t where "LL_RAW = 1"
definition LL_TRACE :: log_level_t where "LL_TRACE = 2"
definition LL_DEBUG :: log_level_t where "LL_DEBUG = 3"
definition LL_INFO :: log_level_t where "LL_INFO = 4"
definition LL_WARNING :: log_level_t where "LL_WARNING = 5"
definition LL_ERROR :: log_level_t where "LL_ERROR = 6"
definition LL_NONE :: log_level_t where "LL_NONE = 7"
definition LL_CNT :: log_level_t where "LL_CNT = 8"

text \<open>\<^verbatim>\<open>static const char * const log_level_map[LL_CNT]\<close> (log.c, line 121).\<close>

definition log_level_map :: "string list" where
  "log_level_map =
     [''INVALID'', ''RAW'', ''TRACE'', ''DEBUG'', ''INFO'', ''WARNING'', ''ERROR'', ''NONE'']"

subsection \<open>The C library's case-insensitive comparison\<close>

text \<open>
  A \<open>string\<close> stands for the bytes of a C string before its terminating NUL
  (a pointer argument the code asserts to be non-null is such a string).
  \<^verbatim>\<open>tolower\<close> takes and returns an \<^verbatim>\<open>int\<close>; it is the one of the "C" locale
  (the program never calls \<^verbatim>\<open>setlocale\<close>): it maps \<open>A\<close> .. \<open>Z\<close> (65 .. 90) to
  \<open>a\<close> .. \<open>z\<close> and leaves every other value alone. \<^verbatim>\<open>strcasecmp\<close> walks both
  strings and returns the difference of the first pair of lowered bytes that differ (the
  terminator counts as 0), and 0 when there is none.
\<close>

definition tolower :: "int \<Rightarrow> int" where
  "tolower c = (if 65 \<le> c \<and> c \<le> 90 then c + 32 else c)"

fun strcasecmp :: "string \<Rightarrow> string \<Rightarrow> int" where
  "strcasecmp [] [] = 0"
| "strcasecmp [] (y # ys) = 0 - tolower (of_char y)"
| "strcasecmp (x # xs) [] = tolower (of_char x)"
| "strcasecmp (x # xs) (y # ys) =
     (if tolower (of_char x) = tolower (of_char y) then strcasecmp xs ys
      else tolower (of_char x) - tolower (of_char y))"

text \<open>The bytes of a string with the letters lowered: what a comparison ignoring case sees.\<close>

definition casefold :: "string \<Rightarrow> int list" where
  "casefold s = map (\<lambda>c. tolower (of_char c)) s"

text \<open>A well-formed C string has no NUL byte before its terminator.\<close>

definition c_string :: "string \<Rightarrow> bool" where
  "c_string s = (CHR 0x00 \<notin> set s)"

subsection \<open>log\_str\_to\_ll and log\_ll\_to\_str (log.c, lines 829 - 860)\<close>

text \<open>
  The loop \<^verbatim>\<open>for (ll = LL_INVALID; ll < LL_CNT; ll++)\<close> of \<^verbatim>\<open>log_str_to_ll\<close>, with
  its early \<^verbatim>\<open>return ll\<close> and the \<^verbatim>\<open>return LL_INVALID\<close> after it.
\<close>

function log_str_to_ll_loop :: "string \<Rightarrow> log_level_t \<Rightarrow> log_level_t" where
  "log_str_to_ll_loop str ll =
     (if ll < LL_CNT
      then (if strcasecmp str (log_level_map ! nat ll) = 0 then ll
            else log_str_to_ll_loop str (ll + 1))
      else LL_INVALID)"
  by pat_completeness auto
termination
  by (relation "measure (\<lambda>(str, ll). nat (LL_CNT - ll))") auto

definition log_str_to_ll :: "string \<Rightarrow> log_level_t" where
  "log_str_to_ll str = log_str_to_ll_loop str LL_INVALID"

definition log_ll_to_str :: "log_level_t \<Rightarrow> string" where
  "log_ll_to_str log_level =
     (if log_level \<ge> LL_INVALID \<and> log_level < LL_CNT
      then log_level_map ! nat log_level
      else log_level_map ! nat LL_INVALID)"

section \<open>The logging context (log.c: log\_ctx, log\_source\_hm\_elt\_t)\<close>

subsection \<open>Constants\<close>

definition LOG_SRC_STORED_MAX_SIZE :: nat where
  "LOG_SRC_STORED_MAX_SIZE = 128"

subsection \<open>The mutex\<close>

text \<open>
  The model is sequential: one thread calls the library. The mutex is kept because the
  code creates, locks, unlocks and destroys it, and because a lock on a mutex that is not
  initialised and unlocked has no defined outcome to go on with (POSIX leaves it
  undefined, or the call returns an error and the \<^verbatim>\<open>assert\<close> of
  \<^verbatim>\<open>MUTEX_CHECK_LOCK\<close> stops the program). An operation that does not return normally
  has the value \<open>None\<close>.
\<close>

datatype pthread_mutex_t = MUTEX_RAW | MUTEX_UNLOCKED | MUTEX_LOCKED | MUTEX_DESTROYED

definition pthread_mutex_lock :: "pthread_mutex_t \<Rightarrow> pthread_mutex_t option" where
  "pthread_mutex_lock m = (if m = MUTEX_UNLOCKED then Some MUTEX_LOCKED else None)"

definition pthread_mutex_unlock :: "pthread_mutex_t \<Rightarrow> pthread_mutex_t option" where
  "pthread_mutex_unlock m = (if m = MUTEX_LOCKED then Some MUTEX_UNLOCKED else None)"

subsection \<open>State\<close>

text \<open>
  A hash element lives in a block of its own (\<^verbatim>\<open>calloc\<close> in \<^verbatim>\<open>log_register\<close>,
  \<^verbatim>\<open>free\<close> in \<^verbatim>\<open>log_unregister\<close> and \<^verbatim>\<open>log_destroy\<close>). The table
  \<open>source_hm\<close> lists the live blocks in uthash's iteration order (the order of
  insertion: \<^verbatim>\<open>hh.next\<close>), each as the pair of its address and its contents. A block
  that is not in the list is not allocated. Addresses are never handed out twice
  (\<open>next_block\<close> counts them), so that a pointer to a freed block is recognised as
  dangling instead of reading whatever was allocated there later.
\<close>

record log_source_hm_elt_t =
  elt_source :: string
  elt_min_log_level :: log_level_t

text \<open>
  The five fields of \<^verbatim>\<open>log_ctx_t\<close> (the static \<^verbatim>\<open>log_ctx\<close>), and the allocator's
  next block address.
\<close>

record log_state =
  source_hm :: "(nat \<times> log_source_hm_elt_t) list"
  ctx_min_log_level :: log_level_t
  mutex :: pthread_mutex_t
  use_mutex :: bool
  initialized :: bool
  next_block :: nat

text \<open>The state at program start: static storage is zero, address 0 is \<^verbatim>\<open>NULL\<close>.\<close>

definition log_ctx0 :: log_state where
  "log_ctx0 =
     \<lparr>source_hm = [], ctx_min_log_level = 0, mutex = MUTEX_RAW, use_mutex = False,
      initialized = False, next_block = 1\<rparr>"

text \<open>
  \<^verbatim>\<open>log_src_descr_t\<close> holds a \<^verbatim>\<open>const char *\<close>. In the array a caller passes to
  \<^verbatim>\<open>log_register_ex\<close> the pointer is to a string of the caller's, given here by its
  bytes (\<open>string log_src_descr_t\<close>); in a dump it is the address of a hash element's
  \<^verbatim>\<open>source\<close> field (\<open>nat log_src_descr_t\<close>).
\<close>

record 'p log_src_descr_t =
  descr_source :: 'p
  descr_min_log_level :: log_level_t

record log_src_dump_t =
  global_level :: log_level_t
  num_log_src_descr :: nat
  log_src_descrs :: "nat log_src_descr_t list"

subsection \<open>uthash\<close>

text \<open>
  The macros of uthash the code uses, on the table as a list. \<^verbatim>\<open>HASH_FIND_STR\<close>
  returns the element whose key has the bytes of the string sought; uthash leaves the
  uniqueness of keys to its caller, and among several elements with one key the bucket
  chain holds the latest added first. \<^verbatim>\<open>HASH_ADD_STR\<close> appends to the iteration
  order, with the element's own \<^verbatim>\<open>source\<close> field as key. \<^verbatim>\<open>HASH_DEL\<close> unlinks
  the element at the given address.
\<close>

fun HASH_FIND_STR ::
  "(nat \<times> log_source_hm_elt_t) list \<Rightarrow> string \<Rightarrow> (nat \<times> log_source_hm_elt_t) option" where
  "HASH_FIND_STR [] findstr = None"
| "HASH_FIND_STR (x # rest) findstr =
     (case HASH_FIND_STR rest findstr of
        Some y \<Rightarrow> Some y
      | None \<Rightarrow> (if elt_source (snd x) = findstr then Some x else None))"

definition HASH_ADD_STR ::
  "(nat \<times> log_source_hm_elt_t) list \<Rightarrow> nat \<Rightarrow> log_source_hm_elt_t \<Rightarrow>
   (nat \<times> log_source_hm_elt_t) list" where
  "HASH_ADD_STR hm a e = hm @ [(a, e)]"

definition HASH_DEL ::
  "(nat \<times> log_source_hm_elt_t) list \<Rightarrow> nat \<Rightarrow> (nat \<times> log_source_hm_elt_t) list" where
  "HASH_DEL hm a = filter (\<lambda>x. fst x \<noteq> a) hm"

definition HASH_COUNT :: "(nat \<times> log_source_hm_elt_t) list \<Rightarrow> nat" where
  "HASH_COUNT hm = length hm"

text \<open>The assignment \<^verbatim>\<open>existing->min_log_level = min_log_level\<close> through a pointer.\<close>

definition store_min_log_level ::
  "(nat \<times> log_source_hm_elt_t) list \<Rightarrow> nat \<Rightarrow> log_level_t \<Rightarrow>
   (nat \<times> log_source_hm_elt_t) list" where
  "store_min_log_level hm a v =
     map (\<lambda>x. if fst x = a then (fst x, (snd x)\<lparr>elt_min_log_level := v\<rparr>) else x) hm"

text \<open>
  \<^verbatim>\<open>calloc\<close>: \<open>mem\<close> tells whether the allocator has a block to give. The result is
  the address (\<open>None\<close> for \<^verbatim>\<open>NULL\<close>) and the state.
\<close>

definition calloc :: "bool \<Rightarrow> log_state \<Rightarrow> nat option \<times> log_state" where
  "calloc mem st =
     (if mem then (Some (next_block st), st\<lparr>next_block := Suc (next_block st)\<rparr>)
      else (None, st))"

subsection \<open>Static helpers (log.c, lines 373 - 460)\<close>

definition lock_mutex_if_it_needs :: "log_state \<Rightarrow> log_state option" where
  "lock_mutex_if_it_needs st =
     (if use_mutex st
      then do { m \<leftarrow> pthread_mutex_lock (mutex st); Some (st\<lparr>mutex := m\<rparr>) }
      else Some st)"

definition unlock_mutex_if_it_needs :: "log_state \<Rightarrow> log_state option" where
  "unlock_mutex_if_it_needs st =
     (if use_mutex st
      then do { m \<leftarrow> pthread_mutex_unlock (mutex st); Some (st\<lparr>mutex := m\<rparr>) }
      else Some st)"

definition check_log_level :: "log_level_t \<Rightarrow> log_level_t \<Rightarrow> bool" where
  "check_log_level requested current = (requested \<ge> current)"

text \<open>
  \<^verbatim>\<open>is_log_allowed\<close>: the two \<^verbatim>\<open>assert\<close>s on the level stop the program
  (\<open>None\<close>); otherwise the global level is checked first, then the source's.
\<close>

definition is_log_allowed :: "log_state \<Rightarrow> string \<Rightarrow> log_level_t \<Rightarrow> bool option" where
  "is_log_allowed st source log_level =
     (if log_level > LL_INVALID \<and> log_level < LL_CNT
      then Some
        (if check_log_level log_level (ctx_min_log_level st)
         then (case HASH_FIND_STR (source_hm st) source of
                 Some elt \<Rightarrow> check_log_level log_level (elt_min_log_level (snd elt))
               | None \<Rightarrow> False)
         else False)
      else None)"

subsection \<open>The public functions (log.c, lines 470 - 641 and 870 - 952)\<close>

text \<open>
  \<^verbatim>\<open>log_init\<close>; \<open>mutex_init_res\<close> is what \<^verbatim>\<open>pthread_mutex_init\<close> returns if it is
  called. Note that \<^verbatim>\<open>use_mutex\<close> is assigned before the mutex is created.
\<close>

definition log_init :: "int \<Rightarrow> log_state \<Rightarrow> log_level_t \<Rightarrow> bool \<Rightarrow> bool \<times> log_state" where
  "log_init mutex_init_res st min_log_level is_thread_safe =
     (if initialized st = False
      then (if min_log_level \<le> LL_INVALID \<or> min_log_level \<ge> LL_CNT then (False, st)
            else
              (let st1 = st\<lparr>ctx_min_log_level := min_log_level, use_mutex := is_thread_safe\<rparr>
               in if is_thread_safe
                  then (if mutex_init_res \<noteq> 0 then (False, st1)
                        else (True, st1\<lparr>mutex := MUTEX_UNLOCKED, initialized := True\<rparr>))
                  else (True, st1\<lparr>initialized := True\<rparr>)))
      else (False, st))"

definition log_set_log_level :: "log_state \<Rightarrow> log_level_t \<Rightarrow> (bool \<times> log_state) option" where
  "log_set_log_level st min_log_level =
     (if min_log_level \<le> LL_INVALID \<or> min_log_level \<ge> LL_CNT then Some (False, st)
      else if initialized st = False then Some (False, st)
      else do {
        st1 \<leftarrow> lock_mutex_if_it_needs st;
        st2 \<leftarrow> unlock_mutex_if_it_needs (st1\<lparr>ctx_min_log_level := min_log_level\<rparr>);
        Some (True, st2)
      })"

text \<open>
  \<^verbatim>\<open>log_register\<close>. The length test is \<^verbatim>\<open>strlen(source) > LOG_SRC_STORED_MAX_SIZE\<close>;
  a new element stores \<^verbatim>\<open>strncpy(..., source, LOG_SRC_STORED_MAX_SIZE-1)\<close> in a zeroed
  block, that is the first 127 bytes of the name.
\<close>

definition log_register ::
  "bool \<Rightarrow> log_state \<Rightarrow> string \<Rightarrow> log_level_t \<Rightarrow> (bool \<times> log_state) option" where
  "log_register mem st source min_log_level =
     (if min_log_level \<le> LL_INVALID \<or> min_log_level \<ge> LL_CNT then Some (False, st)
      else if initialized st = False then Some (False, st)
      else if length source > LOG_SRC_STORED_MAX_SIZE then Some (False, st)
      else do {
        st1 \<leftarrow> lock_mutex_if_it_needs st;
        let (result, st2) =
          (case HASH_FIND_STR (source_hm st1) source of
             Some existing \<Rightarrow>
               (True,
                st1\<lparr>source_hm := store_min_log_level (source_hm st1) (fst existing) min_log_level\<rparr>)
           | None \<Rightarrow>
               (case calloc mem st1 of
                  (Some source_hm_elt, st1') \<Rightarrow>
                    (True,
                     st1'\<lparr>source_hm :=
                       HASH_ADD_STR (source_hm st1') source_hm_elt
                         \<lparr>elt_source = take (LOG_SRC_STORED_MAX_SIZE - 1) source,
                          elt_min_log_level = min_log_level\<rparr>\<rparr>)
                | (None, st1') \<Rightarrow> (False, st1')));
        st3 \<leftarrow> unlock_mutex_if_it_needs st2;
        Some (result, st3)
      })"

text \<open>
  \<^verbatim>\<open>log_register_ex\<close>. \<open>descr\<close> is \<open>None\<close> for a \<^verbatim>\<open>NULL\<close> array; reading
  \<^verbatim>\<open>descr[i]\<close> past the end of the array has no defined value. \<open>mem i\<close> tells
  whether the allocator has a block in the \<open>i\<close>-th round of the loop.
\<close>

function log_register_ex_loop ::
  "(nat \<Rightarrow> bool) \<Rightarrow> log_state \<Rightarrow> string log_src_descr_t list \<Rightarrow> nat \<Rightarrow> nat \<Rightarrow>
   (bool \<times> log_state) option" where
  "log_register_ex_loop mem st descr num_descrs i =
     (if i < num_descrs
      then (if i < length descr
            then (case log_register (mem i) st (descr_source (descr ! i))
                         (descr_min_log_level (descr ! i)) of
                    None \<Rightarrow> None
                  | Some (ok, st1) \<Rightarrow>
                      (if ok then log_register_ex_loop mem st1 descr num_descrs (i + 1)
                       else Some (False, st1)))
            else None)
      else Some (True, st))"
  by pat_completeness auto
termination
  by (relation "measure (\<lambda>(mem, st, descr, num_descrs, i). num_descrs - i)") auto

definition log_register_ex ::
  "(nat \<Rightarrow> bool) \<Rightarrow> log_state \<Rightarrow> string log_src_descr_t list option \<Rightarrow> nat \<Rightarrow>
   (bool \<times> log_state) option" where
  "log_register_ex mem st descr num_descrs =
     (if initialized st = False then Some (False, st)
      else if num_descrs \<noteq> 0 \<and> descr = None then Some (False, st)
      else log_register_ex_loop mem st (case descr of None \<Rightarrow> [] | Some d \<Rightarrow> d) num_descrs 0)"

definition log_unregister :: "log_state \<Rightarrow> string \<Rightarrow> log_state option" where
  "log_unregister st source =
     (if initialized st = False then Some st
      else do {
        st1 \<leftarrow> lock_mutex_if_it_needs st;
        let st2 =
          (case HASH_FIND_STR (source_hm st1) source of
             Some elt \<Rightarrow> st1\<lparr>source_hm := HASH_DEL (source_hm st1) (fst elt)\<rparr>
           | None \<Rightarrow> st1);
        unlock_mutex_if_it_needs st2
      })"

text \<open>
  \<^verbatim>\<open>log_destroy\<close>; \<open>mutex_destroy_res\<close> is what \<^verbatim>\<open>pthread_mutex_destroy\<close> returns
  if it is called. The \<^verbatim>\<open>HASH_ITER\<close> loop unlinks and frees every element, and the
  code then sets \<^verbatim>\<open>log_ctx.source_hm = NULL\<close>: no block is left. No statement of the
  function writes \<^verbatim>\<open>initialized\<close> or \<^verbatim>\<open>use_mutex\<close>.
\<close>

definition log_destroy :: "int \<Rightarrow> log_state \<Rightarrow> (bool \<times> log_state) option" where
  "log_destroy mutex_destroy_res st =
     (if initialized st
      then do {
        st1 \<leftarrow> lock_mutex_if_it_needs st;
        let st2 = st1\<lparr>source_hm := []\<rparr>;
        if use_mutex st2
        then do {
          m \<leftarrow> pthread_mutex_unlock (mutex st2);
          if mutex_destroy_res \<noteq> 0 then Some (False, st2\<lparr>mutex := m\<rparr>)
          else Some (True, st2\<lparr>mutex := MUTEX_DESTROYED\<rparr>)
        }
        else Some (True, st2)
      }
      else Some (True, st))"

definition log_will_be_printed ::
  "log_state \<Rightarrow> string \<Rightarrow> log_level_t \<Rightarrow> (bool \<times> log_state) option" where
  "log_will_be_printed st source log_level =
     do {
       st1 \<leftarrow> lock_mutex_if_it_needs st;
       res \<leftarrow> is_log_allowed st1 source log_level;
       st2 \<leftarrow> unlock_mutex_if_it_needs st1;
       Some (res, st2)
     }"

definition log_get_src_level :: "log_state \<Rightarrow> string \<Rightarrow> (log_level_t \<times> log_state) option" where
  "log_get_src_level st source =
     do {
       st1 \<leftarrow> lock_mutex_if_it_needs st;
       let res = (case HASH_FIND_STR (source_hm st1) source of
                    Some elt \<Rightarrow> elt_min_log_level (snd elt)
                  | None \<Rightarrow> LL_INVALID);
       st2 \<leftarrow> unlock_mutex_if_it_needs st1;
       Some (res, st2)
     }"

definition log_get_global_level :: "log_state \<Rightarrow> (log_level_t \<times> log_state) option" where
  "log_get_global_level st =
     do {
       st1 \<leftarrow> lock_mutex_if_it_needs st;
       let res = ctx_min_log_level st1;
       st2 \<leftarrow> unlock_mutex_if_it_needs st1;
       Some (res, st2)
     }"

text \<open>
  \<^verbatim>\<open>log_src_dump\<close>. The loop \<^verbatim>\<open>for (i = 0; i < sz && elt; i++)\<close> walks the chain
  and fills one descriptor per round: \<open>n\<close> is the number of rounds left. The descriptor
  receives the pointer \<^verbatim>\<open>elt->source\<close> (the element's address, not a copy of the
  bytes) and the value of \<^verbatim>\<open>elt->min_log_level\<close>. \<open>mem\<close> tells whether
  \<^verbatim>\<open>malloc\<close> has a block for the dump; the result is \<open>None\<close> for \<^verbatim>\<open>NULL\<close>.
\<close>

fun log_src_dump_loop ::
  "nat \<Rightarrow> (nat \<times> log_source_hm_elt_t) list \<Rightarrow> nat log_src_descr_t list" where
  "log_src_dump_loop 0 chain = []"
| "log_src_dump_loop (Suc n) [] = []"
| "log_src_dump_loop (Suc n) (elt # next) =
     \<lparr>descr_source = fst elt, descr_min_log_level = elt_min_log_level (snd elt)\<rparr>
       # log_src_dump_loop n next"

definition log_src_dump :: "bool \<Rightarrow> log_state \<Rightarrow> (log_src_dump_t option \<times> log_state) option" where
  "log_src_dump mem st =
     (if \<not> initialized st then Some (None, st)
      else do {
        st1 \<leftarrow> lock_mutex_if_it_needs st;
        let sz = HASH_COUNT (source_hm st1);
        if \<not> mem
        then do { st2 \<leftarrow> unlock_mutex_if_it_needs st1; Some (None, st2) }
        else do {
          let res = \<lparr>global_level = ctx_min_log_level st1, num_log_src_descr = sz,
                     log_src_descrs = log_src_dump_loop sz (source_hm st1)\<rparr>;
          st2 \<leftarrow> unlock_mutex_if_it_needs st1;
          Some (Some res, st2)
        }
      })"

text \<open>
  Reading the name a descriptor of a dump points to: the bytes of the element at that
  address, and \<open>None\<close> when no live block is there (the pointer dangles).
\<close>

definition read_source :: "log_state \<Rightarrow> nat \<Rightarrow> string option" where
  "read_source st p = map_option elt_source (map_of (source_hm st) p)"

text \<open>What a reader of a dump sees: the two scalar fields and, per entry, name and level.\<close>

definition dump_contents ::
  "log_state \<Rightarrow> log_src_dump_t \<Rightarrow> log_level_t \<times> nat \<times> (string option \<times> log_level_t) list" where
  "dump_contents st d =
     (global_level d, num_log_src_descr d,
      map (\<lambda>x. (read_source st (descr_source x), descr_min_log_level x)) (log_src_descrs d))"

subsection \<open>Calls and reachable states\<close>

datatype log_call =
    Init int log_level_t bool
  | SetLogLevel log_level_t
  | Register bool string log_level_t
  | RegisterEx "nat \<Rightarrow> bool" "string log_src_descr_t list option" nat
  | Unregister string
  | Destroy int
  | WillBePrinted string log_level_t
  | GetSrcLevel string
  | GetGlobalLevel
  | SrcDump bool

text \<open>The state a call leaves, \<open>None\<close> when the call does not return.\<close>

fun call :: "log_call \<Rightarrow> log_state \<Rightarrow> log_state option" where
  "call (Init r l t) st = Some (snd (log_init r st l t))"
| "call (SetLogLevel l) st = map_option snd (log_set_log_level st l)"
| "call (Register m s l) st = map_option snd (log_register m st s l)"
| "call (RegisterEx m d n) st = map_option snd (log_register_ex m st d n)"
| "call (Unregister s) st = log_unregister st s"
| "call (Destroy r) st = map_option snd (log_destroy r st)"
| "call (WillBePrinted s l) st = map_option snd (log_will_be_printed st s l)"
| "call (GetSrcLevel s) st = map_option snd (log_get_src_level st s)"
| "call GetGlobalLevel st = map_option snd (log_get_global_level st)"
| "call (SrcDump m) st = map_option snd (log_src_dump m st)"

fun run :: "log_call list \<Rightarrow> log_state \<Rightarrow> log_state option" where
  "run [] st = Some st"
| "run (c # cs) st = (case call c st of None \<Rightarrow> None | Some st1 \<Rightarrow> run cs st1)"

inductive reachable :: "log_state \<Rightarrow> bool" where
  start: "reachable log_ctx0"
| step: "reachable st \<Longrightarrow> call c st = Some st1 \<Longrightarrow> reachable st1"

code_pred reachable .

subsection \<open>Predicates on states\<close>

text \<open>
  A source is registered when an element of the table has its name as key;
  \<open>count_entries\<close> counts those elements. The lock succeeds when no mutex is in use or
  the mutex is initialised and free.
\<close>

definition registered :: "log_state \<Rightarrow> string \<Rightarrow> bool" where
  "registered st source = (\<exists>x \<in> set (source_hm st). elt_source (snd x) = source)"

definition count_entries :: "log_state \<Rightarrow> string \<Rightarrow> nat" where
  "count_entries st source =
     length (filter (\<lambda>x. elt_source (snd x) = source) (source_hm st))"

definition mutex_usable :: "log_state \<Rightarrow> bool" where
  "mutex_usable st = (if use_mutex st then mutex st = MUTEX_UNLOCKED else True)"

definition valid_level :: "log_level_t \<Rightarrow> bool" where
  "valid_level l = (LL_INVALID < l \<and> l < LL_CNT)"

definition levels_valid :: "log_state \<Rightarrow> bool" where
  "levels_valid st = list_all (\<lambda>x. valid_level (elt_min_log_level (snd x))) (source_hm st)"

text \<open>
  The specification's \<open>register_many\<close>: apply \<open>register\<close> to each entry in the given
  order and stop at the first failure, keeping what was registered before it. Written
  from the specification's words, for comparison with \<open>log_register_ex\<close>; \<open>i\<close> is the
  index of the first entry of the list in the whole array.
\<close>

fun register_many ::
  "(nat \<Rightarrow> bool) \<Rightarrow> nat \<Rightarrow> log_state \<Rightarrow> string log_src_descr_t list \<Rightarrow>
   (bool \<times> log_state) option" where
  "register_many mem i st [] = Some (True, st)"
| "register_many mem i st (d # ds) =
     (case log_register (mem i) st (descr_source d) (descr_min_log_level d) of
        None \<Rightarrow> None
      | Some (ok, st1) \<Rightarrow> (if ok then register_many mem (Suc i) st1 ds else Some (False, st1)))"

text \<open>
  Well-formed heaps: the blocks of the table have distinct addresses, all handed out
  before (below \<open>next_block\<close>).
\<close>

definition wf_heap :: "log_state \<Rightarrow> bool" where
  "wf_heap st =
     (distinct (map fst (source_hm st)) \<and> list_all (\<lambda>x. fst x < next_block st) (source_hm st))"

text \<open>
  The names a dump's entries read as, and the calls that leave them readable: every call
  but \<open>log_destroy\<close> and \<open>log_unregister\<close> of one of those names.
\<close>

definition dump_names :: "log_state \<Rightarrow> log_src_dump_t \<Rightarrow> string option list" where
  "dump_names st d = map (\<lambda>x. read_source st (descr_source x)) (log_src_descrs d)"

fun keeps_dump :: "string option list \<Rightarrow> log_call \<Rightarrow> bool" where
  "keeps_dump names (Unregister s) = (Some s \<notin> set names)"
| "keeps_dump names (Destroy r) = False"
| "keeps_dump names c = True"

text \<open>
  How a call other than unregistration and teardown changes the table: not at all, by a
  store of a valid level into an element, by a new element with a valid level in a fresh
  block, or by several such steps (\<open>log_register_ex\<close>).
\<close>

inductive table_grows :: "log_state \<Rightarrow> log_state \<Rightarrow> bool" where
  same: "source_hm st1 = source_hm st \<Longrightarrow> next_block st1 = next_block st \<Longrightarrow> table_grows st st1"
| store: "valid_level v \<Longrightarrow> source_hm st1 = store_min_log_level (source_hm st) a v \<Longrightarrow>
     next_block st1 = next_block st \<Longrightarrow> table_grows st st1"
| add: "valid_level (elt_min_log_level e) \<Longrightarrow> source_hm st1 = source_hm st @ [(next_block st, e)] \<Longrightarrow>
     next_block st1 = Suc (next_block st) \<Longrightarrow> table_grows st st1"
| trans: "table_grows st st1 \<Longrightarrow> table_grows st1 st2 \<Longrightarrow> table_grows st st2"

code_pred table_grows .

section \<open>Formatting (log.c, lines 250 - 299 and 697 - 820)\<close>

subsection \<open>C library and machine arithmetic\<close>

text \<open>
  \<^verbatim>\<open>size_t\<close> is taken to have 64 bits (an LP64 platform); its arithmetic wraps around.
\<close>

definition SIZE_MOD :: nat where
  "SIZE_MOD = 2 ^ 64"

definition size_t_mul :: "nat \<Rightarrow> nat \<Rightarrow> nat" where
  "size_t_mul a b = (a * b) mod SIZE_MOD"

definition size_t_add :: "nat \<Rightarrow> nat \<Rightarrow> nat" where
  "size_t_add a b = (a + b) mod SIZE_MOD"

definition size_t_sub :: "nat \<Rightarrow> nat \<Rightarrow> nat" where
  "size_t_sub a b = (a mod SIZE_MOD + SIZE_MOD - b mod SIZE_MOD) mod SIZE_MOD"

text \<open>
  The conversion \<^verbatim>\<open>%.<prec>X\<close> of \<^verbatim>\<open>printf\<close>: the digits of the value in upper
  case hexadecimal, with zeros in front up to \<open>prec\<close> digits (and more digits than
  \<open>prec\<close> when the value needs them).
\<close>

definition hex_digit :: "nat \<Rightarrow> char" where
  "hex_digit n = ''0123456789ABCDEF'' ! n"

function hex_digits :: "nat \<Rightarrow> string" where
  "hex_digits n = (if n = 0 then [] else hex_digits (n div 16) @ [hex_digit (n mod 16)])"
  by pat_completeness auto
termination
  by (relation "measure id") auto

definition printf_X :: "nat \<Rightarrow> nat \<Rightarrow> string" where
  "printf_X prec n = replicate (prec - length (hex_digits n)) CHR ''0'' @ hex_digits n"

text \<open>
  The conversions \<^verbatim>\<open>%-<w>.<p>s\<close> (at most \<open>p\<close> bytes of the string, then spaces up
  to the width \<open>w\<close>) and \<^verbatim>\<open>%<w>s\<close> (spaces in front up to the width), and
  \<^verbatim>\<open>snprintf\<close> into a buffer of \<open>n\<close> bytes, which keeps \<open>n - 1\<close> bytes of the
  text.
\<close>

definition fmt_s_left :: "nat \<Rightarrow> nat \<Rightarrow> string \<Rightarrow> string" where
  "fmt_s_left w p s = take p s @ replicate (w - length (take p s)) CHR '' ''"

definition fmt_s_right :: "nat \<Rightarrow> string \<Rightarrow> string" where
  "fmt_s_right w s = replicate (w - length s) CHR '' '' @ s"

definition snprintf :: "nat \<Rightarrow> string \<Rightarrow> string" where
  "snprintf n s = take (n - 1) s"

text \<open>
  \<^verbatim>\<open>isprint\<close> of the "C" locale, on the value of the byte: the codes 32 .. 126. (On a
  platform where \<^verbatim>\<open>char\<close> is signed the code passes a negative value for a byte
  above 127; the "C" locale has no printable character there either.)
\<close>

definition isprint :: "int \<Rightarrow> bool" where
  "isprint c = (32 \<le> c \<and> c \<le> 126)"

text \<open>
  \<^verbatim>\<open>strrchr\<close>: the part of the string from the last occurrence of the byte on,
  \<open>None\<close> for \<^verbatim>\<open>NULL\<close>.
\<close>

fun strrchr :: "string \<Rightarrow> char \<Rightarrow> string option" where
  "strrchr [] c = None"
| "strrchr (x # xs) c =
     (case strrchr xs c of
        Some pos \<Rightarrow> Some pos
      | None \<Rightarrow> (if x = c then Some (x # xs) else None))"

subsection \<open>Memory\<close>

text \<open>
  A read or a write is inside an array or has no defined outcome (\<open>None\<close>).
  \<open>sprintf_at\<close> is \<^verbatim>\<open>sprintf\<close> of a text to the position \<open>pos\<close> of a buffer: the bytes
  of the text and the terminating NUL. \<open>c_strlen\<close> is \<^verbatim>\<open>strlen\<close> of the string that
  starts at a position of a buffer, and \<open>c_str\<close> the string a buffer holds from its
  start, as \<^verbatim>\<open>%s\<close> prints it.
\<close>

definition peek :: "string \<Rightarrow> nat \<Rightarrow> char option" where
  "peek buf i = (if i < length buf then Some (buf ! i) else None)"

definition poke :: "string \<Rightarrow> nat \<Rightarrow> char \<Rightarrow> string option" where
  "poke buf i c = (if i < length buf then Some (buf[i := c]) else None)"

fun sprintf_at :: "string \<Rightarrow> nat \<Rightarrow> string \<Rightarrow> string option" where
  "sprintf_at buf pos [] = poke buf pos (CHR 0x00)"
| "sprintf_at buf pos (c # cs) = do { b \<leftarrow> poke buf pos c; sprintf_at b (Suc pos) cs }"

definition c_strlen :: "string \<Rightarrow> nat \<Rightarrow> nat option" where
  "c_strlen buf pos =
     (if CHR 0x00 \<in> set (drop pos buf)
      then Some (length (takeWhile (\<lambda>c. c \<noteq> CHR 0x00) (drop pos buf)))
      else None)"

definition c_str :: "string \<Rightarrow> string option" where
  "c_str buf = map_option (\<lambda>n. take n buf) (c_strlen buf 0)"

subsection \<open>The prefix of a record\<close>

definition LOG_SRC_MAX_SIZE :: nat where
  "LOG_SRC_MAX_SIZE = 16"

definition LOG_FUNCTION_NAME_MAX_SIZE :: nat where
  "LOG_FUNCTION_NAME_MAX_SIZE = 20"

definition LOG_FILE_NAME_MAX_SIZE :: nat where
  "LOG_FILE_NAME_MAX_SIZE = 20"

definition LOG_RAW_ADDR_FIELD_WIDTH :: nat where
  "LOG_RAW_ADDR_FIELD_WIDTH = 8"

text \<open>The two switches of the build, \<^verbatim>\<open>DO_LOG_FUNCTION_NAME\<close> and \<^verbatim>\<open>DO_LOG_CURRENT_TIME\<close>.\<close>

record build_config =
  DO_LOG_FUNCTION_NAME :: bool
  DO_LOG_CURRENT_TIME :: bool

definition extract_file_name :: "string \<Rightarrow> string" where
  "extract_file_name file_path =
     (case strrchr file_path (CHR ''/'') of
        Some pos \<Rightarrow> tl pos
      | None \<Rightarrow>
          (case strrchr file_path (CHR 0x5C) of
             Some pos \<Rightarrow> tl pos
           | None \<Rightarrow> file_path))"

text \<open>
  \<^verbatim>\<open>compose_log_prefix\<close>; \<open>now\<close> is the text \<^verbatim>\<open>print_current_time\<close> gives for the
  clock's time, used when the time switch is on. The level is below \<open>LL_CNT\<close> at both
  places the code calls it from.
\<close>

definition compose_log_prefix ::
  "build_config \<Rightarrow> string \<Rightarrow> nat \<Rightarrow> string \<Rightarrow> string \<Rightarrow> string \<Rightarrow> string \<Rightarrow> log_level_t \<Rightarrow>
   string" where
  "compose_log_prefix cfg now prefix_buf_size source file line function log_level =
     snprintf prefix_buf_size
       ((if DO_LOG_CURRENT_TIME cfg then now @ '':'' else [])
        @ ''['' @ fmt_s_left 1 1 (log_level_map ! nat log_level)
        @ '']['' @ fmt_s_left LOG_SRC_MAX_SIZE LOG_SRC_MAX_SIZE source
        @ ''][''
        @ fmt_s_left LOG_FILE_NAME_MAX_SIZE LOG_FILE_NAME_MAX_SIZE (extract_file_name file)
        @ '':'' @ fmt_s_right 5 line @ '']''
        @ (if DO_LOG_FUNCTION_NAME cfg
           then '' in ''
             @ fmt_s_left LOG_FUNCTION_NAME_MAX_SIZE LOG_FUNCTION_NAME_MAX_SIZE function
             @ ''()''
           else []))"

subsection \<open>compose\_hexdump\_line and log\_raw\<close>

text \<open>
  The three loops of \<^verbatim>\<open>compose_hexdump_line\<close>. \<open>ptr\<close> and \<open>cptr\<close> are indices
  into the input, \<open>pos\<close> is the index \<^verbatim>\<open>buf_out\<close> has advanced to in the output
  array. The first loop prints a space and two hexadecimal digits per byte with
  \<^verbatim>\<open>sprintf\<close>, which also writes a NUL behind them; the second writes three spaces for
  each of the places up to 16; the third writes the byte itself when \<^verbatim>\<open>isprint\<close>
  holds of it and a dot otherwise.
\<close>

function hex_loop ::
  "string \<Rightarrow> nat \<Rightarrow> nat \<Rightarrow> nat \<Rightarrow> string \<Rightarrow> nat \<Rightarrow> (string \<times> nat) option" where
  "hex_loop buf_in ptr limit i buf_out pos =
     (if i < limit
      then do {
        byte \<leftarrow> peek buf_in ptr;
        out \<leftarrow> sprintf_at buf_out pos (CHR '' '' # printf_X 2 (of_char byte));
        hex_loop buf_in (ptr + 1) limit (i + 1) out (pos + 3)
      }
      else Some (buf_out, pos))"
  by pat_completeness auto
termination
  by (relation "measure (\<lambda>(buf_in, ptr, limit, i, buf_out, pos). limit - i)") auto

function pad_loop :: "nat \<Rightarrow> string \<Rightarrow> nat \<Rightarrow> (string \<times> nat) option" where
  "pad_loop j buf_out pos =
     (if j < 16
      then do {
        out0 \<leftarrow> poke buf_out pos (CHR '' '');
        out1 \<leftarrow> poke out0 (pos + 1) (CHR '' '');
        out2 \<leftarrow> poke out1 (pos + 2) (CHR '' '');
        pad_loop (j + 1) out2 (pos + 3)
      }
      else Some (buf_out, pos))"
  by pat_completeness auto
termination
  by (relation "measure (\<lambda>(j, buf_out, pos). 16 - j)") auto

function text_loop ::
  "string \<Rightarrow> nat \<Rightarrow> nat \<Rightarrow> nat \<Rightarrow> string \<Rightarrow> nat \<Rightarrow> (string \<times> nat) option" where
  "text_loop buf_in cptr limit i buf_out pos =
     (if i < limit
      then do {
        byte \<leftarrow> peek buf_in cptr;
        out \<leftarrow> poke buf_out pos (if isprint (of_char byte) then byte else CHR ''.'');
        text_loop buf_in (cptr + 1) limit (i + 1) out (pos + 1)
      }
      else Some (buf_out, pos))"
  by pat_completeness auto
termination
  by (relation "measure (\<lambda>(buf_in, cptr, limit, i, buf_out, pos). limit - i)") auto

text \<open>
  \<^verbatim>\<open>compose_hexdump_line\<close>. The result is the output array after the call. The last
  two lines are the closing \<^verbatim>\<open>assert(strlen(buf_out) < 100)\<close>, where \<^verbatim>\<open>buf_out\<close>
  points to the NUL just written.
\<close>

definition compose_hexdump_line :: "string \<Rightarrow> nat \<Rightarrow> nat \<Rightarrow> string \<Rightarrow> string option" where
  "compose_hexdump_line buf_in buf_in_size offset buf_out =
     do {
       let ptr = size_t_mul offset 16;
       out0 \<leftarrow> sprintf_at buf_out 0
                (printf_X LOG_RAW_ADDR_FIELD_WIDTH (size_t_mul offset 16) @ ''  '');
       let pos0 = LOG_RAW_ADDR_FIELD_WIDTH + 2;
       let limit = (if size_t_sub buf_in_size (size_t_mul offset 16) > 16 then 16
                    else size_t_sub buf_in_size (size_t_mul offset 16));
       (out1, pos1) \<leftarrow> hex_loop buf_in ptr limit 0 out0 pos0;
       (out2, pos2) \<leftarrow> pad_loop limit out1 pos1;
       out3 \<leftarrow> poke out2 pos2 (CHR '' '');
       out4 \<leftarrow> poke out3 (pos2 + 1) (CHR ''|'');
       out5 \<leftarrow> poke out4 (pos2 + 2) (CHR '' '');
       (out6, pos6) \<leftarrow> text_loop buf_in ptr limit 0 out5 (pos2 + 3);
       out7 \<leftarrow> poke out6 pos6 (CHR 0x00);
       n \<leftarrow> c_strlen out7 pos6;
       if n < 100 then Some out7 else None
     }"

text \<open>
  The loop \<^verbatim>\<open>for (i = 0; i < length; i+=16)\<close> of \<^verbatim>\<open>log_raw\<close>: \<open>hexdump_line\<close> is
  the array of 100 bytes on the stack, \<open>err\<close> the text written to \<^verbatim>\<open>stderr\<close> so far.
  The counter is a \<^verbatim>\<open>size_t\<close>; the loop need not end when it wraps around.
\<close>

partial_function (option) log_raw_loop ::
  "string \<Rightarrow> nat \<Rightarrow> nat \<Rightarrow> string \<Rightarrow> string \<Rightarrow> (string \<times> string) option" where
  "log_raw_loop buffer len i hexdump_line err =
     (if i < len
      then do {
        line \<leftarrow> compose_hexdump_line buffer len (i div 16) hexdump_line;
        text \<leftarrow> c_str line;
        log_raw_loop buffer len (size_t_add i 16) line (err @ text @ [CHR 0x0A])
      }
      else Some (hexdump_line, err))"

text \<open>
  \<^verbatim>\<open>log_raw\<close>. \<open>buffer\<close> is \<open>None\<close> for \<^verbatim>\<open>NULL\<close>; \<open>hexdump_line\<close> is what the
  array on the stack holds on entry. The result is the text written to \<^verbatim>\<open>stderr\<close>
  and the state.
\<close>

definition log_raw ::
  "build_config \<Rightarrow> string \<Rightarrow> log_state \<Rightarrow> string \<Rightarrow> string \<Rightarrow> string \<Rightarrow> string \<Rightarrow>
   string option \<Rightarrow> nat \<Rightarrow> string \<Rightarrow> (string \<times> log_state) option" where
  "log_raw cfg now st source file line function buffer len hexdump_line =
     (if initialized st = False then Some ([], st)
      else do {
        st1 \<leftarrow> lock_mutex_if_it_needs st;
        allowed \<leftarrow> is_log_allowed st1 source LL_RAW;
        err \<leftarrow>
          (if allowed
           then (let log_buf =
                       snprintf 8192
                         (compose_log_prefix cfg now 128 source file line function LL_RAW
                          @ [CHR 0x0A])
                 in case buffer of
                      Some buf \<Rightarrow> map_option snd (log_raw_loop buf len 0 hexdump_line log_buf)
                    | None \<Rightarrow> Some (log_buf @ ''NULL'' @ [CHR 0x0A]))
           else Some []);
        st2 \<leftarrow> unlock_mutex_if_it_needs st1;
        Some (err, st2)
      })"

text \<open>
  The row the specification describes for the bytes \<open>chunk\<close> (at most 16) of row
  \<open>row\<close>: the offset in eight hexadecimal digits, per byte a space and its two digits,
  blanks for the places a short row leaves, the separator, and the bytes as text.
\<close>

definition hex_group :: "char \<Rightarrow> string" where
  "hex_group b = [CHR '' '', hex_digit (of_char b div 16), hex_digit (of_char b mod 16)]"

definition text_char :: "char \<Rightarrow> char" where
  "text_char b = (if isprint (of_char b) then b else CHR ''.'')"

definition hexdump_row :: "nat \<Rightarrow> string \<Rightarrow> string" where
  "hexdump_row row chunk =
     printf_X 8 (row * 16) @ ''  '' @ concat (map hex_group chunk)
     @ replicate (3 * (16 - length chunk)) CHR '' '' @ '' | '' @ map text_char chunk"

section \<open>Level table: parsing and rendering\<close>

lemmas ll_defs =
  LL_INVALID_def LL_RAW_def LL_TRACE_def LL_DEBUG_def LL_INFO_def
  LL_WARNING_def LL_ERROR_def LL_NONE_def LL_CNT_def

declare log_str_to_ll_loop.simps [simp del]

declare log_register_ex_loop.simps [simp del]

declare hex_digits.simps [simp del] hex_loop.simps [simp del] pad_loop.simps [simp del]
  text_loop.simps [simp del]

lemma of_char_zero_iff: "(of_char c :: int) = 0 \<longleftrightarrow> c = CHR 0x00"
proof -
  have "(of_char c :: int) = of_char (CHR 0x00) \<longleftrightarrow> c = CHR 0x00"
    by (rule of_char_eq_iff)
  then show ?thesis by simp
qed

lemma of_char_nonneg: "0 \<le> (of_char c :: int)"
proof -
  have "0 \<le> int (of_char c)" by simp
  then show ?thesis by (simp only: of_nat_of_char)
qed

lemma tolower_zero: "tolower (of_char c) = 0 \<longleftrightarrow> c = CHR 0x00"
  using of_char_zero_iff [of c] of_char_nonneg [of c] by (auto simp: tolower_def)

lemma tolower_idem: "tolower (tolower c) = tolower c"
  by (auto simp: tolower_def)

lemma strcasecmp_zero_iff:
  "c_string a \<Longrightarrow> c_string b \<Longrightarrow> strcasecmp a b = 0 \<longleftrightarrow> casefold a = casefold b"
proof (induction a b rule: strcasecmp.induct)
  case 1
  then show ?case by (simp add: casefold_def)
next
  case (2 y ys)
  then show ?case by (auto simp: c_string_def tolower_zero casefold_def)
next
  case (3 x xs)
  then show ?case by (auto simp: c_string_def tolower_zero casefold_def)
next
  case (4 x xs y ys)
  then show ?case by (auto simp: c_string_def casefold_def split: if_splits)
qed

lemma strcasecmp_casefold_eq:
  "casefold a = casefold b \<Longrightarrow> strcasecmp a n = strcasecmp b n"
proof (induction a n arbitrary: b rule: strcasecmp.induct)
  case 1
  then show ?case by (cases b) (simp_all add: casefold_def)
next
  case (2 y ys)
  then show ?case by (cases b) (simp_all add: casefold_def)
next
  case (3 x xs)
  then show ?case by (cases b) (simp_all add: casefold_def)
next
  case (4 x xs y ys)
  then show ?case by (cases b) (auto simp: casefold_def)
qed

lemma log_str_to_ll_loop_no_match:
  "(\<forall>k. ll \<le> k \<and> k < LL_CNT \<longrightarrow> strcasecmp str (log_level_map ! nat k) \<noteq> 0) \<Longrightarrow>
   log_str_to_ll_loop str ll = LL_INVALID"
proof (induction str ll rule: log_str_to_ll_loop.induct)
  case (1 str ll)
  show ?case
  proof (cases "ll < LL_CNT")
    case True
    with "1.prems" have ne: "strcasecmp str (log_level_map ! nat ll) \<noteq> 0" by simp
    have "log_str_to_ll_loop str (ll + 1) = LL_INVALID"
      using "1.IH" [OF True ne] "1.prems" by simp
    with True ne show ?thesis by (simp add: log_str_to_ll_loop.simps [of str ll])
  next
    case False
    then show ?thesis by (simp add: log_str_to_ll_loop.simps [of str ll])
  qed
qed

lemma log_str_to_ll_loop_casefold_eq:
  "casefold a = casefold b \<Longrightarrow> log_str_to_ll_loop a ll = log_str_to_ll_loop b ll"
proof (induction a ll rule: log_str_to_ll_loop.induct)
  case (1 str ll)
  show ?case
  proof (cases "ll < LL_CNT")
    case True
    have same: "strcasecmp str (log_level_map ! nat ll) = strcasecmp b (log_level_map ! nat ll)"
      using "1.prems" by (rule strcasecmp_casefold_eq)
    show ?thesis
    proof (cases "strcasecmp str (log_level_map ! nat ll) = 0")
      case True
      with same \<open>ll < LL_CNT\<close> show ?thesis
        by (simp add: log_str_to_ll_loop.simps [of str ll] log_str_to_ll_loop.simps [of b ll])
    next
      case False
      with same \<open>ll < LL_CNT\<close> "1.IH" "1.prems" show ?thesis
        by (simp add: log_str_to_ll_loop.simps [of str ll] log_str_to_ll_loop.simps [of b ll])
    qed
  next
    case False
    then show ?thesis
      by (simp add: log_str_to_ll_loop.simps [of str ll] log_str_to_ll_loop.simps [of b ll])
  qed
qed


lemma level_names_c_string: "list_all c_string log_level_map"
  by (simp add: log_level_map_def c_string_def)

lemma log_str_to_ll_not_a_name:
  assumes "c_string str" and "casefold str \<notin> set (map casefold log_level_map)"
  shows "log_str_to_ll str = LL_INVALID"
proof -
  have "strcasecmp str (log_level_map ! nat k) \<noteq> 0" if "LL_INVALID \<le> k" "k < LL_CNT" for k
  proof -
    from that have lt: "nat k < length log_level_map"
      by (simp add: ll_defs log_level_map_def)
    then have mem: "log_level_map ! nat k \<in> set log_level_map"
      by (rule nth_mem)
    with level_names_c_string have "c_string (log_level_map ! nat k)"
      by (simp add: list_all_iff)
    moreover from mem assms(2) have "casefold str \<noteq> casefold (log_level_map ! nat k)"
      by auto
    ultimately show ?thesis
      using assms(1) by (simp add: strcasecmp_zero_iff)
  qed
  then show ?thesis
    unfolding log_str_to_ll_def by (intro log_str_to_ll_loop_no_match) simp
qed

text \<open>
  C5. For every real severity \<open>s\<close> (RAW through NONE), parsing the rendered name gives
  \<open>s\<close> back; a string that is not a level name (whatever its case) parses to
  \<open>LL_INVALID\<close>, as \<open>bogus\<close> does; and two strings that differ in case only parse to
  the same level, as \<open>error\<close> and \<open>ERROR\<close> do (to \<open>LL_ERROR\<close>).
\<close>

theorem log_level_parse_render:
  "(\<forall>s. LL_RAW \<le> s \<and> s \<le> LL_NONE \<longrightarrow> log_str_to_ll (log_ll_to_str s) = s)
   \<and> (\<forall>str. c_string str \<and> casefold str \<notin> set (map casefold log_level_map)
          \<longrightarrow> log_str_to_ll str = LL_INVALID)
   \<and> log_str_to_ll ''bogus'' = LL_INVALID
   \<and> (\<forall>a b. casefold a = casefold b \<longrightarrow> log_str_to_ll a = log_str_to_ll b)
   \<and> log_str_to_ll ''error'' = log_str_to_ll ''ERROR''
   \<and> log_str_to_ll ''ERROR'' = LL_ERROR"
proof (intro conjI allI impI)
  fix s assume "LL_RAW \<le> s \<and> s \<le> LL_NONE"
  then have "s = 1 \<or> s = 2 \<or> s = 3 \<or> s = 4 \<or> s = 5 \<or> s = 6 \<or> s = 7"
    by (simp add: ll_defs) arith
  then show "log_str_to_ll (log_ll_to_str s) = s"
    by (elim disjE)
       (simp_all add: log_ll_to_str_def log_str_to_ll_def log_str_to_ll_loop.simps ll_defs
          log_level_map_def tolower_def)
next
  fix str assume "c_string str \<and> casefold str \<notin> set (map casefold log_level_map)"
  then show "log_str_to_ll str = LL_INVALID"
    by (simp add: log_str_to_ll_not_a_name)
next
  show "log_str_to_ll ''bogus'' = LL_INVALID"
    by (simp add: log_str_to_ll_def log_str_to_ll_loop.simps ll_defs log_level_map_def tolower_def)
next
  fix a b assume "casefold a = casefold b"
  then show "log_str_to_ll a = log_str_to_ll b"
    unfolding log_str_to_ll_def by (rule log_str_to_ll_loop_casefold_eq)
next
  show "log_str_to_ll ''error'' = log_str_to_ll ''ERROR''"
    by (simp add: log_str_to_ll_def log_str_to_ll_loop.simps ll_defs log_level_map_def tolower_def)
next
  show "log_str_to_ll ''ERROR'' = LL_ERROR"
    by (simp add: log_str_to_ll_def log_str_to_ll_loop.simps ll_defs log_level_map_def tolower_def)
qed

theorem log_level_parse_render_witness:
  "log_str_to_ll (log_ll_to_str LL_WARNING) = LL_WARNING
   \<and> log_str_to_ll ''nonsense'' = LL_INVALID
   \<and> log_str_to_ll ''wArNiNg'' = log_str_to_ll ''WARNING''"
proof -
  have a: "LL_RAW \<le> LL_WARNING \<and> LL_WARNING \<le> LL_NONE"
    by (simp add: ll_defs)
  have b: "c_string ''nonsense'' \<and> casefold ''nonsense'' \<notin> set (map casefold log_level_map)"
    by (simp add: c_string_def casefold_def tolower_def log_level_map_def)
  have c: "casefold ''wArNiNg'' = casefold ''WARNING''"
    by (simp add: casefold_def tolower_def)
  from log_level_parse_render a b c show ?thesis
    by blast
qed

section \<open>The registry and the gate\<close>

subsection \<open>The table\<close>

lemmas mutex_defs =
  lock_mutex_if_it_needs_def unlock_mutex_if_it_needs_def pthread_mutex_lock_def
  pthread_mutex_unlock_def mutex_usable_def

lemma HASH_FIND_STR_None_iff:
  "HASH_FIND_STR hm k = None \<longleftrightarrow> (\<forall>x \<in> set hm. elt_source (snd x) \<noteq> k)"
  by (induction hm) (auto split: option.splits)

lemma HASH_FIND_STR_SomeD:
  "HASH_FIND_STR hm k = Some x \<Longrightarrow> x \<in> set hm \<and> elt_source (snd x) = k"
  by (induction hm) (auto split: option.splits if_splits)

lemma HASH_FIND_STR_append1:
  "HASH_FIND_STR (hm @ [x]) k = (if elt_source (snd x) = k then Some x else HASH_FIND_STR hm k)"
  by (induction hm) (auto split: option.splits)

lemma HASH_FIND_STR_map:
  assumes "\<And>x. elt_source (snd (f x)) = elt_source (snd x)"
  shows "HASH_FIND_STR (map f hm) k = map_option f (HASH_FIND_STR hm k)"
  by (induction hm) (auto simp: assms split: option.splits)

lemma HASH_FIND_STR_store:
  "HASH_FIND_STR (store_min_log_level hm a v) k =
     map_option (\<lambda>x. if fst x = a then (fst x, (snd x)\<lparr>elt_min_log_level := v\<rparr>) else x)
       (HASH_FIND_STR hm k)"
  unfolding store_min_log_level_def by (rule HASH_FIND_STR_map) simp

lemma log_register_usable:
  assumes "mutex_usable st"
  shows "log_register mem st source lvl =
     Some (if lvl \<le> LL_INVALID \<or> lvl \<ge> LL_CNT then (False, st)
           else if \<not> initialized st then (False, st)
           else if length source > LOG_SRC_STORED_MAX_SIZE then (False, st)
           else (case HASH_FIND_STR (source_hm st) source of
                   Some existing \<Rightarrow>
                     (True, st\<lparr>source_hm := store_min_log_level (source_hm st) (fst existing) lvl\<rparr>)
                 | None \<Rightarrow>
                     (if mem
                      then (True, st\<lparr>source_hm := source_hm st @
                               [(next_block st,
                                 \<lparr>elt_source = take (LOG_SRC_STORED_MAX_SIZE - 1) source,
                                  elt_min_log_level = lvl\<rparr>)],
                              next_block := Suc (next_block st)\<rparr>)
                      else (False, st))))"
  using assms
  by (cases st)
     (auto simp: log_register_def mutex_defs calloc_def HASH_ADD_STR_def split: option.splits)

lemma log_get_src_level_usable:
  assumes "mutex_usable st"
  shows "log_get_src_level st source =
     Some (case HASH_FIND_STR (source_hm st) source of
             Some elt \<Rightarrow> elt_min_log_level (snd elt) | None \<Rightarrow> LL_INVALID, st)"
  using assms
  by (cases st) (auto simp: log_get_src_level_def mutex_defs split: option.splits)

lemma log_will_be_printed_usable:
  assumes "mutex_usable st"
  shows "log_will_be_printed st source lvl = map_option (\<lambda>r. (r, st)) (is_log_allowed st source lvl)"
  using assms
  by (cases st) (auto simp: log_will_be_printed_def is_log_allowed_def mutex_defs split: option.splits)

lemma log_unregister_usable:
  assumes "mutex_usable st"
  shows "log_unregister st source =
     Some (if \<not> initialized st then st
           else (case HASH_FIND_STR (source_hm st) source of
                   Some elt \<Rightarrow> st\<lparr>source_hm := HASH_DEL (source_hm st) (fst elt)\<rparr>
                 | None \<Rightarrow> st))"
  using assms
  by (cases st) (auto simp: log_unregister_def mutex_defs split: option.splits)

lemma log_set_log_level_usable:
  assumes "mutex_usable st"
  shows "log_set_log_level st lvl =
     Some (if lvl \<le> LL_INVALID \<or> lvl \<ge> LL_CNT then (False, st)
           else if \<not> initialized st then (False, st)
           else (True, st\<lparr>ctx_min_log_level := lvl\<rparr>))"
  using assms
  by (cases st) (auto simp: log_set_log_level_def mutex_defs)

lemma log_src_dump_usable:
  assumes "mutex_usable st"
  shows "log_src_dump mem st =
     Some (if initialized st \<and> mem
           then Some \<lparr>global_level = ctx_min_log_level st,
                      num_log_src_descr = length (source_hm st),
                      log_src_descrs = log_src_dump_loop (length (source_hm st)) (source_hm st)\<rparr>
           else None, st)"
  using assms
  by (cases st) (auto simp: log_src_dump_def mutex_defs HASH_COUNT_def Let_def)

subsection \<open>The gate\<close>

lemma registered_iff_find: "registered st source \<longleftrightarrow> HASH_FIND_STR (source_hm st) source \<noteq> None"
  by (auto simp: registered_def HASH_FIND_STR_None_iff)

lemma is_log_allowed_max:
  assumes "LL_INVALID < s" and "s < LL_CNT"
  shows "is_log_allowed st source s =
     Some (case HASH_FIND_STR (source_hm st) source of
             Some elt \<Rightarrow> max (ctx_min_log_level st) (elt_min_log_level (snd elt)) \<le> s
           | None \<Rightarrow> False)"
  using assms by (auto simp: is_log_allowed_def check_log_level_def split: option.splits)

text \<open>
  C1. For a severity \<open>s\<close> with \<open>LL_INVALID < s < LL_NONE\<close>, any global level and any
  table: when the lookup of the source finds an element with level \<open>p\<close>, the gate
  allows \<open>s\<close> exactly when \<open>s\<close> is at least the maximum of the global level and
  \<open>p\<close>; a registered source is found by the lookup; a source that is not registered
  is denied; and \<open>log_will_be_printed\<close> returns what \<open>is_log_allowed\<close> decides and
  leaves the state as it was.
\<close>

theorem gate_effective_minimum:
  assumes "LL_INVALID < s" and "s < LL_NONE"
  shows "(\<forall>a e. HASH_FIND_STR (source_hm st) source = Some (a, e) \<longrightarrow>
            is_log_allowed st source s =
              Some (s \<ge> max (ctx_min_log_level st) (elt_min_log_level e)))
       \<and> (registered st source \<longrightarrow>
            (\<exists>a e. HASH_FIND_STR (source_hm st) source = Some (a, e) \<and> elt_source e = source))
       \<and> (\<not> registered st source \<longrightarrow> is_log_allowed st source s = Some False)
       \<and> (mutex_usable st \<longrightarrow>
            log_will_be_printed st source s =
              map_option (\<lambda>r. (r, st)) (is_log_allowed st source s))"
proof -
  from assms have lt: "s < LL_CNT" by (simp add: ll_defs)
  note allowed = is_log_allowed_max [OF assms(1) lt]
  have "is_log_allowed st source s = Some (s \<ge> max (ctx_min_log_level st) (elt_min_log_level e))"
    if "HASH_FIND_STR (source_hm st) source = Some (a, e)" for a e
    using that by (simp add: allowed)
  moreover have "\<exists>a e. HASH_FIND_STR (source_hm st) source = Some (a, e) \<and> elt_source e = source"
    if "registered st source"
  proof -
    from that obtain x where "HASH_FIND_STR (source_hm st) source = Some x"
      by (auto simp: registered_iff_find)
    then show ?thesis
      using HASH_FIND_STR_SomeD [of "source_hm st" source x] by (cases x) auto
  qed
  moreover have "is_log_allowed st source s = Some False" if "\<not> registered st source"
    using that by (auto simp: allowed registered_iff_find split: option.splits)
  ultimately show ?thesis
    by (simp add: log_will_be_printed_usable)
qed

theorem gate_effective_minimum_witness:
  "is_log_allowed
     \<lparr>source_hm = [(1, \<lparr>elt_source = ''NET'', elt_min_log_level = LL_DEBUG\<rparr>)],
      ctx_min_log_level = LL_INFO, mutex = MUTEX_RAW, use_mutex = False, initialized = True,
      next_block = 2\<rparr> ''NET'' LL_DEBUG = Some False
   \<and> is_log_allowed
     \<lparr>source_hm = [(1, \<lparr>elt_source = ''NET'', elt_min_log_level = LL_DEBUG\<rparr>)],
      ctx_min_log_level = LL_INFO, mutex = MUTEX_RAW, use_mutex = False, initialized = True,
      next_block = 2\<rparr> ''UNKNOWN'' LL_ERROR = Some False
   \<and> log_will_be_printed
     \<lparr>source_hm = [(1, \<lparr>elt_source = ''NET'', elt_min_log_level = LL_DEBUG\<rparr>)],
      ctx_min_log_level = LL_INFO, mutex = MUTEX_RAW, use_mutex = False, initialized = True,
      next_block = 2\<rparr> ''NET'' LL_WARNING =
       Some (True, \<lparr>source_hm = [(1, \<lparr>elt_source = ''NET'', elt_min_log_level = LL_DEBUG\<rparr>)],
      ctx_min_log_level = LL_INFO, mutex = MUTEX_RAW, use_mutex = False, initialized = True,
      next_block = 2\<rparr>)"
proof -
  let ?st = "\<lparr>source_hm = [(1, \<lparr>elt_source = ''NET'', elt_min_log_level = LL_DEBUG\<rparr>)],
      ctx_min_log_level = LL_INFO, mutex = MUTEX_RAW, use_mutex = False, initialized = True,
      next_block = 2\<rparr>"
  have d: "LL_INVALID < LL_DEBUG" "LL_DEBUG < LL_NONE"
   and e: "LL_INVALID < LL_ERROR" "LL_ERROR < LL_NONE"
   and w: "LL_INVALID < LL_WARNING" "LL_WARNING < LL_NONE"
    by (simp_all add: ll_defs)
  have f: "HASH_FIND_STR (source_hm ?st) ''NET'' =
             Some (1, \<lparr>elt_source = ''NET'', elt_min_log_level = LL_DEBUG\<rparr>)"
    by simp
  have u: "\<not> registered ?st ''UNKNOWN''" and m: "mutex_usable ?st"
    by (simp_all add: registered_def mutex_usable_def)
  from gate_effective_minimum [OF d, of ?st "''NET''"] f
  have 1: "is_log_allowed ?st ''NET'' LL_DEBUG = Some False"
    by (simp add: ll_defs)
  from gate_effective_minimum [OF e, of ?st "''UNKNOWN''"] u
  have 2: "is_log_allowed ?st ''UNKNOWN'' LL_ERROR = Some False"
    by simp
  from gate_effective_minimum [OF w, of ?st "''NET''"] f m
  have 3: "log_will_be_printed ?st ''NET'' LL_WARNING = Some (True, ?st)"
    by (simp add: ll_defs)
  from 1 2 3 show ?thesis by simp
qed

subsection \<open>Initialisation and teardown\<close>

lemma log_init_succeeds_iff:
  "fst (log_init rc st lvl ts) \<longleftrightarrow>
     \<not> initialized st \<and> LL_INVALID < lvl \<and> lvl < LL_CNT \<and> (ts \<longrightarrow> rc = 0)"
  by (auto simp: log_init_def Let_def)

lemma log_init_initialized:
  "log_init rc st lvl ts = (True, st1) \<Longrightarrow> initialized st1"
  by (auto simp: log_init_def Let_def split: if_splits)

lemma log_init_when_initialized:
  "initialized st \<Longrightarrow> log_init rc st lvl ts = (False, st)"
  by (simp add: log_init_def)

lemma log_destroy_initialized:
  "log_destroy rc st = Some (r, st1) \<Longrightarrow> initialized st1 = initialized st"
  by (auto simp: log_destroy_def mutex_defs Let_def split: if_splits bind_splits)

text \<open>
  C2. The claim says that \<open>log_init\<close> with a valid level succeeds again after a
  successful \<open>log_destroy\<close>. In the code \<open>log_destroy\<close> never clears
  \<open>initialized\<close>, so once \<open>log_init\<close> has succeeded every later \<open>log_init\<close>,
  also one after a successful \<open>log_destroy\<close>, returns false and leaves the state as it
  is, whatever its arguments.
\<close>

theorem log_init_after_destroy_fails:
  assumes "log_init r0 st0 l0 t0 = (True, st1)"
      and "log_destroy r1 st1 = Some (True, st2)"
  shows "log_init r2 st2 l2 t2 = (False, st2)"
proof -
  from assms(1) have "initialized st1"
    by (rule log_init_initialized)
  with assms(2) have "initialized st2"
    by (simp add: log_destroy_initialized)
  then show ?thesis
    by (rule log_init_when_initialized)
qed

theorem log_init_after_destroy_fails_witness:
  "log_init 0 log_ctx0 LL_INFO False =
     (True, \<lparr>source_hm = [], ctx_min_log_level = LL_INFO, mutex = MUTEX_RAW,
             use_mutex = False, initialized = True, next_block = 1\<rparr>)
   \<and> log_destroy 0
       \<lparr>source_hm = [], ctx_min_log_level = LL_INFO, mutex = MUTEX_RAW,
        use_mutex = False, initialized = True, next_block = 1\<rparr> =
     Some (True, \<lparr>source_hm = [], ctx_min_log_level = LL_INFO, mutex = MUTEX_RAW,
                  use_mutex = False, initialized = True, next_block = 1\<rparr>)
   \<and> log_init 0
       \<lparr>source_hm = [], ctx_min_log_level = LL_INFO, mutex = MUTEX_RAW,
        use_mutex = False, initialized = True, next_block = 1\<rparr> LL_INFO False =
     (False, \<lparr>source_hm = [], ctx_min_log_level = LL_INFO, mutex = MUTEX_RAW,
              use_mutex = False, initialized = True, next_block = 1\<rparr>)"
proof -
  let ?st = "\<lparr>source_hm = [], ctx_min_log_level = LL_INFO, mutex = MUTEX_RAW,
               use_mutex = False, initialized = True, next_block = 1\<rparr>"
  have i: "log_init 0 log_ctx0 LL_INFO False = (True, ?st)"
    by (simp add: log_init_def log_ctx0_def ll_defs)
  have d: "log_destroy 0 ?st = Some (True, ?st)"
    by (simp add: log_destroy_def mutex_defs)
  from log_init_after_destroy_fails [OF i d, of 0 LL_INFO False] i d show ?thesis
    by simp
qed

subsection \<open>Registration\<close>

lemma count_entries_zero_iff: "count_entries st source = 0 \<longleftrightarrow> \<not> registered st source"
  by (auto simp: count_entries_def registered_def filter_empty_conv)

lemma HASH_FIND_STR_unregistered:
  "\<not> registered st source \<Longrightarrow> HASH_FIND_STR (source_hm st) source = None"
  by (simp add: registered_def HASH_FIND_STR_None_iff)

lemma filter_key_store:
  "filter (\<lambda>x. elt_source (snd x) = k) (store_min_log_level hm a v) =
   store_min_log_level (filter (\<lambda>x. elt_source (snd x) = k) hm) a v"
  by (induction hm) (auto simp: store_min_log_level_def)

lemma length_store [simp]: "length (store_min_log_level hm a v) = length hm"
  by (simp add: store_min_log_level_def)

lemma log_register_stored_name:
  assumes "initialized st" and "mutex_usable st" and "valid_level lvl"
      and "length source = LOG_SRC_STORED_MAX_SIZE" and "\<not> registered st source"
  shows "log_register True st source lvl =
     Some (True, st\<lparr>source_hm := source_hm st @
                      [(next_block st,
                        \<lparr>elt_source = take (LOG_SRC_STORED_MAX_SIZE - 1) source,
                         elt_min_log_level = lvl\<rparr>)],
                    next_block := Suc (next_block st)\<rparr>)"
  using assms
  by (simp add: log_register_usable valid_level_def HASH_FIND_STR_unregistered)

lemma take_shorter_neq:
  "length source = LOG_SRC_STORED_MAX_SIZE \<Longrightarrow> take (LOG_SRC_STORED_MAX_SIZE - 1) source \<noteq> source"
proof
  assume len: "length source = LOG_SRC_STORED_MAX_SIZE"
     and eq: "take (LOG_SRC_STORED_MAX_SIZE - 1) source = source"
  have "length (take (LOG_SRC_STORED_MAX_SIZE - 1) source) = LOG_SRC_STORED_MAX_SIZE - 1"
    using len by simp
  with eq len show False
    by (simp add: LOG_SRC_STORED_MAX_SIZE_def)
qed

text \<open>
  C4. The claim says that a name longer than the stored maximum is refused and that a
  stored name is never truncated. The test in the code is
  \<^verbatim>\<open>strlen(source) > LOG_SRC_STORED_MAX_SIZE\<close>, while the field holds
  \<open>LOG_SRC_STORED_MAX_SIZE - 1\<close> bytes and the terminator. A name of exactly
  \<open>LOG_SRC_STORED_MAX_SIZE\<close> bytes that is not in the table passes the test:
  \<open>log_register\<close> returns true, the element stored has the first 127 bytes as its name,
  the name itself is not registered, and \<open>log_get_src_level\<close> of the name returns
  \<open>LL_INVALID\<close>.
\<close>

theorem log_register_accepts_and_truncates:
  assumes "initialized st" and "mutex_usable st" and "valid_level lvl"
      and "length source = LOG_SRC_STORED_MAX_SIZE" and "\<not> registered st source"
  shows "\<exists>st1. log_register True st source lvl = Some (True, st1)
           \<and> registered st1 (take (LOG_SRC_STORED_MAX_SIZE - 1) source)
           \<and> \<not> registered st1 source
           \<and> log_get_src_level st1 source = Some (LL_INVALID, st1)"
proof -
  let ?st1 = "st\<lparr>source_hm := source_hm st @
                      [(next_block st,
                        \<lparr>elt_source = take (LOG_SRC_STORED_MAX_SIZE - 1) source,
                         elt_min_log_level = lvl\<rparr>)],
                    next_block := Suc (next_block st)\<rparr>"
  have reg: "log_register True st source lvl = Some (True, ?st1)"
    using assms by (rule log_register_stored_name)
  have short: "registered ?st1 (take (LOG_SRC_STORED_MAX_SIZE - 1) source)"
    by (simp add: registered_def)
  have none: "\<not> registered ?st1 source"
    using assms(5) take_shorter_neq [OF assms(4)] by (auto simp: registered_def)
  have usable: "mutex_usable ?st1"
    using assms(2) by (simp add: mutex_usable_def)
  have "log_get_src_level ?st1 source = Some (LL_INVALID, ?st1)"
    using HASH_FIND_STR_unregistered [OF none] log_get_src_level_usable [OF usable, of source]
    by simp
  with reg short none show ?thesis
    by blast
qed

text \<open>
  C7. The claim says that registering one name twice leaves exactly one element for it.
  For a name of exactly \<open>LOG_SRC_STORED_MAX_SIZE\<close> bytes (the case of C4) both calls
  return true and each adds an element: the lookup by the whole name never finds the
  truncated key. The table ends with no element for the name and two more for its first
  127 bytes.
\<close>

theorem log_register_twice_duplicates:
  assumes "initialized st" and "mutex_usable st" and "valid_level l1" and "valid_level l2"
      and "length source = LOG_SRC_STORED_MAX_SIZE" and "\<not> registered st source"
  shows "\<exists>st1 st2. log_register True st source l1 = Some (True, st1)
           \<and> log_register True st1 source l2 = Some (True, st2)
           \<and> count_entries st2 source = 0
           \<and> count_entries st2 (take (LOG_SRC_STORED_MAX_SIZE - 1) source) =
               count_entries st (take (LOG_SRC_STORED_MAX_SIZE - 1) source) + 2
           \<and> HASH_COUNT (source_hm st2) = HASH_COUNT (source_hm st) + 2"
proof -
  let ?k = "take (LOG_SRC_STORED_MAX_SIZE - 1) source"
  let ?st1 = "st\<lparr>source_hm := source_hm st @
                      [(next_block st, \<lparr>elt_source = ?k, elt_min_log_level = l1\<rparr>)],
                    next_block := Suc (next_block st)\<rparr>"
  let ?st2 = "?st1\<lparr>source_hm := source_hm ?st1 @
                      [(next_block ?st1, \<lparr>elt_source = ?k, elt_min_log_level = l2\<rparr>)],
                    next_block := Suc (next_block ?st1)\<rparr>"
  have r1: "log_register True st source l1 = Some (True, ?st1)"
    using assms(1,2,3,5,6) by (rule log_register_stored_name)
  have i1: "initialized ?st1" and u1: "mutex_usable ?st1"
    using assms(1,2) by (simp_all add: mutex_usable_def)
  have n1: "\<not> registered ?st1 source"
    using assms(6) take_shorter_neq [OF assms(5)] by (auto simp: registered_def)
  have r2: "log_register True ?st1 source l2 = Some (True, ?st2)"
    using i1 u1 assms(4,5) n1 by (rule log_register_stored_name)
  have n2: "\<not> registered ?st2 source"
    using assms(6) take_shorter_neq [OF assms(5)] by (auto simp: registered_def)
  have c: "count_entries ?st2 ?k = count_entries st ?k + 2"
    by (simp add: count_entries_def)
  have h: "HASH_COUNT (source_hm ?st2) = HASH_COUNT (source_hm st) + 2"
    by (simp add: HASH_COUNT_def)
  from r1 r2 n2 c h show ?thesis
    unfolding count_entries_zero_iff by blast
qed


theorem log_register_accepts_and_truncates_witness:
  "log_register True
     \<lparr>source_hm = [], ctx_min_log_level = LL_INFO, mutex = MUTEX_RAW, use_mutex = False,
      initialized = True, next_block = 1\<rparr> (replicate 128 CHR ''a'') LL_DEBUG =
     Some (True,
       \<lparr>source_hm = [(1, \<lparr>elt_source = replicate 127 CHR ''a'', elt_min_log_level = LL_DEBUG\<rparr>)],
        ctx_min_log_level = LL_INFO, mutex = MUTEX_RAW, use_mutex = False,
        initialized = True, next_block = 2\<rparr>)
   \<and> log_get_src_level
       \<lparr>source_hm = [(1, \<lparr>elt_source = replicate 127 CHR ''a'', elt_min_log_level = LL_DEBUG\<rparr>)],
        ctx_min_log_level = LL_INFO, mutex = MUTEX_RAW, use_mutex = False,
        initialized = True, next_block = 2\<rparr> (replicate 128 CHR ''a'') =
     Some (LL_INVALID,
       \<lparr>source_hm = [(1, \<lparr>elt_source = replicate 127 CHR ''a'', elt_min_log_level = LL_DEBUG\<rparr>)],
        ctx_min_log_level = LL_INFO, mutex = MUTEX_RAW, use_mutex = False,
        initialized = True, next_block = 2\<rparr>)"
proof -
  let ?st = "\<lparr>source_hm = [], ctx_min_log_level = LL_INFO, mutex = MUTEX_RAW,
               use_mutex = False, initialized = True, next_block = 1\<rparr>"
  let ?st1 = "\<lparr>source_hm =
                  [(1, \<lparr>elt_source = replicate 127 CHR ''a'', elt_min_log_level = LL_DEBUG\<rparr>)],
                ctx_min_log_level = LL_INFO, mutex = MUTEX_RAW, use_mutex = False,
                initialized = True, next_block = 2\<rparr>"
  have h: "initialized ?st" "mutex_usable ?st" "valid_level LL_DEBUG"
      "length (replicate 128 CHR ''a'') = LOG_SRC_STORED_MAX_SIZE"
      "\<not> registered ?st (replicate 128 CHR ''a'')"
    by (simp_all add: mutex_usable_def valid_level_def ll_defs LOG_SRC_STORED_MAX_SIZE_def
          registered_def)
  have r: "log_register True ?st (replicate 128 CHR ''a'') LL_DEBUG = Some (True, ?st1)"
    by (simp add: log_register_def mutex_defs calloc_def HASH_ADD_STR_def
          LOG_SRC_STORED_MAX_SIZE_def ll_defs)
  from log_register_accepts_and_truncates [OF h] r show ?thesis
    by auto
qed

theorem log_register_twice_duplicates_witness:
  "log_register True
     \<lparr>source_hm = [], ctx_min_log_level = LL_INFO, mutex = MUTEX_RAW, use_mutex = False,
      initialized = True, next_block = 1\<rparr> (replicate 128 CHR ''a'') LL_DEBUG =
     Some (True,
       \<lparr>source_hm = [(1, \<lparr>elt_source = replicate 127 CHR ''a'', elt_min_log_level = LL_DEBUG\<rparr>)],
        ctx_min_log_level = LL_INFO, mutex = MUTEX_RAW, use_mutex = False,
        initialized = True, next_block = 2\<rparr>)
   \<and> log_register True
       \<lparr>source_hm = [(1, \<lparr>elt_source = replicate 127 CHR ''a'', elt_min_log_level = LL_DEBUG\<rparr>)],
        ctx_min_log_level = LL_INFO, mutex = MUTEX_RAW, use_mutex = False,
        initialized = True, next_block = 2\<rparr> (replicate 128 CHR ''a'') LL_ERROR =
     Some (True,
       \<lparr>source_hm = [(1, \<lparr>elt_source = replicate 127 CHR ''a'', elt_min_log_level = LL_DEBUG\<rparr>),
                      (2, \<lparr>elt_source = replicate 127 CHR ''a'', elt_min_log_level = LL_ERROR\<rparr>)],
        ctx_min_log_level = LL_INFO, mutex = MUTEX_RAW, use_mutex = False,
        initialized = True, next_block = 3\<rparr>)
   \<and> count_entries
       \<lparr>source_hm = [(1, \<lparr>elt_source = replicate 127 CHR ''a'', elt_min_log_level = LL_DEBUG\<rparr>),
                      (2, \<lparr>elt_source = replicate 127 CHR ''a'', elt_min_log_level = LL_ERROR\<rparr>)],
        ctx_min_log_level = LL_INFO, mutex = MUTEX_RAW, use_mutex = False,
        initialized = True, next_block = 3\<rparr> (replicate 127 CHR ''a'') = 2"
proof -
  let ?st = "\<lparr>source_hm = [], ctx_min_log_level = LL_INFO, mutex = MUTEX_RAW,
               use_mutex = False, initialized = True, next_block = 1\<rparr>"
  let ?st1 = "\<lparr>source_hm =
                  [(1, \<lparr>elt_source = replicate 127 CHR ''a'', elt_min_log_level = LL_DEBUG\<rparr>)],
                ctx_min_log_level = LL_INFO, mutex = MUTEX_RAW, use_mutex = False,
                initialized = True, next_block = 2\<rparr>"
  let ?st2 = "\<lparr>source_hm =
                  [(1, \<lparr>elt_source = replicate 127 CHR ''a'', elt_min_log_level = LL_DEBUG\<rparr>),
                   (2, \<lparr>elt_source = replicate 127 CHR ''a'', elt_min_log_level = LL_ERROR\<rparr>)],
                ctx_min_log_level = LL_INFO, mutex = MUTEX_RAW, use_mutex = False,
                initialized = True, next_block = 3\<rparr>"
  have h: "initialized ?st" "mutex_usable ?st" "valid_level LL_DEBUG" "valid_level LL_ERROR"
      "length (replicate 128 CHR ''a'') = LOG_SRC_STORED_MAX_SIZE"
      "\<not> registered ?st (replicate 128 CHR ''a'')"
    by (simp_all add: mutex_usable_def valid_level_def ll_defs LOG_SRC_STORED_MAX_SIZE_def
          registered_def)
  have r1: "log_register True ?st (replicate 128 CHR ''a'') LL_DEBUG = Some (True, ?st1)"
    by (simp add: log_register_def mutex_defs calloc_def HASH_ADD_STR_def
          LOG_SRC_STORED_MAX_SIZE_def ll_defs)
  have r2: "log_register True ?st1 (replicate 128 CHR ''a'') LL_ERROR = Some (True, ?st2)"
    by (simp add: log_register_def mutex_defs calloc_def HASH_ADD_STR_def
          LOG_SRC_STORED_MAX_SIZE_def ll_defs)
  from log_register_twice_duplicates [OF h] r1 r2 show ?thesis
    by (auto simp: LOG_SRC_STORED_MAX_SIZE_def count_entries_def)
qed

lemma log_register_invalid_level:
  "\<not> valid_level lvl \<Longrightarrow> log_register mem st source lvl = Some (False, st)"
  by (auto simp: log_register_def valid_level_def)

lemma take_fits:
  "length source < LOG_SRC_STORED_MAX_SIZE \<Longrightarrow> take (LOG_SRC_STORED_MAX_SIZE - 1) source = source"
  by (simp add: LOG_SRC_STORED_MAX_SIZE_def)

lemma log_register_then_lookup:
  assumes "initialized st" and "mutex_usable st" and "valid_level lvl"
      and "length source < LOG_SRC_STORED_MAX_SIZE" and "mem \<or> registered st source"
  shows "\<exists>st1. log_register mem st source lvl = Some (True, st1)
           \<and> log_get_src_level st1 source = Some (lvl, st1)
           \<and> initialized st1 \<and> mutex_usable st1"
proof (cases "HASH_FIND_STR (source_hm st) source")
  case None
  with assms(5) have mem by (simp add: registered_iff_find)
  let ?st1 = "st\<lparr>source_hm := source_hm st @
                      [(next_block st, \<lparr>elt_source = source, elt_min_log_level = lvl\<rparr>)],
                    next_block := Suc (next_block st)\<rparr>"
  have reg: "log_register mem st source lvl = Some (True, ?st1)"
    using assms(1,3,4) None \<open>mem\<close>
    by (simp add: log_register_usable [OF assms(2)] valid_level_def take_fits)
  have usable: "mutex_usable ?st1"
    using assms(2) by (simp add: mutex_usable_def)
  have "log_get_src_level ?st1 source = Some (lvl, ?st1)"
    by (simp add: log_get_src_level_usable [OF usable] HASH_FIND_STR_append1)
  with reg usable assms(1) show ?thesis
    by auto
next
  case (Some existing)
  let ?st1 = "st\<lparr>source_hm := store_min_log_level (source_hm st) (fst existing) lvl\<rparr>"
  have reg: "log_register mem st source lvl = Some (True, ?st1)"
    using assms(1,3,4) Some
    by (simp add: log_register_usable [OF assms(2)] valid_level_def)
  have usable: "mutex_usable ?st1"
    using assms(2) by (simp add: mutex_usable_def)
  have "log_get_src_level ?st1 source = Some (lvl, ?st1)"
    using Some by (simp add: log_get_src_level_usable [OF usable] HASH_FIND_STR_store)
  with reg usable assms(1) show ?thesis
    by auto
qed

lemma log_register_ex_loop_register_many:
  "i \<le> length descr \<Longrightarrow>
   log_register_ex_loop mem st descr (length descr) i = register_many mem i st (drop i descr)"
proof (induction "length descr - i" arbitrary: i st)
  case 0
  then have "i = length descr" by simp
  then show ?case
    by (simp add: log_register_ex_loop.simps [of mem st descr "length descr" "length descr"])
next
  case (Suc n)
  then have lt: "i < length descr" by simp
  then have d: "drop i descr = descr ! i # drop (Suc i) descr"
    by (simp add: Cons_nth_drop_Suc)
  have ih: "log_register_ex_loop mem st1 descr (length descr) (Suc i) =
            register_many mem (Suc i) st1 (drop (Suc i) descr)" for st1
    using Suc.hyps(1) [of "Suc i" st1] Suc.hyps(2) lt by simp
  show ?case
    using lt
    by (simp add: log_register_ex_loop.simps [of mem st descr "length descr" i] d ih
          split: option.splits)
qed

lemma log_register_ex_register_many:
  assumes "initialized st"
  shows "log_register_ex mem st (Some descr) (length descr) = register_many mem 0 st descr"
  using assms log_register_ex_loop_register_many [of 0 descr mem st]
  by (simp add: log_register_ex_def)

lemma log_register_ex_pair:
  assumes "initialized st" and "log_register (mem 0) st a la = Some (True, st1)"
      and "\<not> valid_level lb"
  shows "log_register_ex mem st
          (Some [\<lparr>descr_source = a, descr_min_log_level = la\<rparr>,
                 \<lparr>descr_source = b, descr_min_log_level = lb\<rparr>]) 2 = Some (False, st1)"
proof -
  let ?d = "[\<lparr>descr_source = a, descr_min_log_level = la\<rparr>,
             \<lparr>descr_source = b, descr_min_log_level = lb\<rparr>]"
  have two: "length ?d = 2" by simp
  have "log_register_ex mem st (Some ?d) (length ?d) = register_many mem 0 st ?d"
    using assms(1) by (rule log_register_ex_register_many)
  also have "\<dots> = Some (False, st1)"
    using assms(2,3) by (simp add: log_register_invalid_level)
  finally show ?thesis
    by (simp only: two)
qed

text \<open>
  C6. For an initialised context \<open>log_register_ex\<close> on an array and its length is
  \<open>register_many\<close>: \<open>log_register\<close> entry by entry in array order, stopping with
  failure at the first entry that fails, in the state the entries before it left. For
  the batch of \<open>A\<close> and \<open>B\<close> where registering \<open>A\<close> alone succeeds and the level of
  \<open>B\<close> is not valid, the call returns false in exactly the state registering \<open>A\<close>
  alone leaves. When \<open>A\<close> has a valid level and a name that fits the stored field
  (fewer than \<open>LOG_SRC_STORED_MAX_SIZE\<close> bytes), and the allocator has a block if
  \<open>A\<close> is new, the lookup of \<open>A\<close> after the failed batch returns the level of \<open>A\<close>.
\<close>

theorem log_register_ex_no_rollback:
  "(initialized st \<longrightarrow>
      log_register_ex mem st (Some descr) (length descr) = register_many mem 0 st descr)
   \<and> (initialized st \<and> log_register (mem 0) st a la = Some (True, st1) \<and> \<not> valid_level lb \<longrightarrow>
        log_register_ex mem st
          (Some [\<lparr>descr_source = a, descr_min_log_level = la\<rparr>,
                 \<lparr>descr_source = b, descr_min_log_level = lb\<rparr>]) 2 = Some (False, st1))
   \<and> (initialized st \<and> mutex_usable st \<and> valid_level la
        \<and> length a < LOG_SRC_STORED_MAX_SIZE \<and> (mem 0 \<or> registered st a) \<and> \<not> valid_level lb \<longrightarrow>
        (\<exists>st2. log_register_ex mem st
                 (Some [\<lparr>descr_source = a, descr_min_log_level = la\<rparr>,
                        \<lparr>descr_source = b, descr_min_log_level = lb\<rparr>]) 2 = Some (False, st2)
               \<and> log_get_src_level st2 a = Some (la, st2)))"
proof (intro conjI impI)
  assume "initialized st"
  then show "log_register_ex mem st (Some descr) (length descr) = register_many mem 0 st descr"
    by (rule log_register_ex_register_many)
next
  assume "initialized st \<and> log_register (mem 0) st a la = Some (True, st1) \<and> \<not> valid_level lb"
  then show "log_register_ex mem st
          (Some [\<lparr>descr_source = a, descr_min_log_level = la\<rparr>,
                 \<lparr>descr_source = b, descr_min_log_level = lb\<rparr>]) 2 = Some (False, st1)"
    by (simp add: log_register_ex_pair)
next
  assume h: "initialized st \<and> mutex_usable st \<and> valid_level la
        \<and> length a < LOG_SRC_STORED_MAX_SIZE \<and> (mem 0 \<or> registered st a) \<and> \<not> valid_level lb"
  then have "\<exists>st2. log_register (mem 0) st a la = Some (True, st2)
           \<and> log_get_src_level st2 a = Some (la, st2)
           \<and> initialized st2 \<and> mutex_usable st2"
    by (intro log_register_then_lookup) simp_all
  then obtain st2 where r: "log_register (mem 0) st a la = Some (True, st2)"
      and l: "log_get_src_level st2 a = Some (la, st2)"
    by blast
  from h r have "log_register_ex mem st
          (Some [\<lparr>descr_source = a, descr_min_log_level = la\<rparr>,
                 \<lparr>descr_source = b, descr_min_log_level = lb\<rparr>]) 2 = Some (False, st2)"
    by (simp add: log_register_ex_pair)
  with l show "\<exists>st2. log_register_ex mem st
                 (Some [\<lparr>descr_source = a, descr_min_log_level = la\<rparr>,
                        \<lparr>descr_source = b, descr_min_log_level = lb\<rparr>]) 2 = Some (False, st2)
               \<and> log_get_src_level st2 a = Some (la, st2)"
    by blast
qed

theorem log_register_ex_no_rollback_witness:
  "log_register_ex (\<lambda>i. True)
     \<lparr>source_hm = [], ctx_min_log_level = LL_INFO, mutex = MUTEX_RAW, use_mutex = False,
      initialized = True, next_block = 1\<rparr>
     (Some [\<lparr>descr_source = ''NET'', descr_min_log_level = LL_DEBUG\<rparr>,
            \<lparr>descr_source = ''DB'', descr_min_log_level = LL_CNT\<rparr>]) 2 =
     Some (False,
       \<lparr>source_hm = [(1, \<lparr>elt_source = ''NET'', elt_min_log_level = LL_DEBUG\<rparr>)],
        ctx_min_log_level = LL_INFO, mutex = MUTEX_RAW, use_mutex = False,
        initialized = True, next_block = 2\<rparr>)
   \<and> log_get_src_level
       \<lparr>source_hm = [(1, \<lparr>elt_source = ''NET'', elt_min_log_level = LL_DEBUG\<rparr>)],
        ctx_min_log_level = LL_INFO, mutex = MUTEX_RAW, use_mutex = False,
        initialized = True, next_block = 2\<rparr> ''NET'' =
     Some (LL_DEBUG,
       \<lparr>source_hm = [(1, \<lparr>elt_source = ''NET'', elt_min_log_level = LL_DEBUG\<rparr>)],
        ctx_min_log_level = LL_INFO, mutex = MUTEX_RAW, use_mutex = False,
        initialized = True, next_block = 2\<rparr>)"
proof -
  let ?st = "\<lparr>source_hm = [], ctx_min_log_level = LL_INFO, mutex = MUTEX_RAW,
               use_mutex = False, initialized = True, next_block = 1\<rparr>"
  let ?st1 = "\<lparr>source_hm = [(1, \<lparr>elt_source = ''NET'', elt_min_log_level = LL_DEBUG\<rparr>)],
                ctx_min_log_level = LL_INFO, mutex = MUTEX_RAW, use_mutex = False,
                initialized = True, next_block = 2\<rparr>"
  have r: "log_register True ?st ''NET'' LL_DEBUG = Some (True, ?st1)"
    by (simp add: log_register_def mutex_defs calloc_def HASH_ADD_STR_def
          LOG_SRC_STORED_MAX_SIZE_def ll_defs)
  have h: "initialized ?st" "mutex_usable ?st" "valid_level LL_DEBUG"
      "length ''NET'' < LOG_SRC_STORED_MAX_SIZE" "\<not> valid_level LL_CNT"
    by (simp_all add: mutex_usable_def valid_level_def ll_defs LOG_SRC_STORED_MAX_SIZE_def)
  note inst = log_register_ex_no_rollback
    [of ?st "\<lambda>i. True" "[]" "''NET''" LL_DEBUG ?st1 LL_CNT "''DB''"]
  from inst r h(1,5)
  have e: "log_register_ex (\<lambda>i. True) ?st
     (Some [\<lparr>descr_source = ''NET'', descr_min_log_level = LL_DEBUG\<rparr>,
            \<lparr>descr_source = ''DB'', descr_min_log_level = LL_CNT\<rparr>]) 2 = Some (False, ?st1)"
    by blast
  from inst h
  have "\<exists>st2. log_register_ex (\<lambda>i. True) ?st
     (Some [\<lparr>descr_source = ''NET'', descr_min_log_level = LL_DEBUG\<rparr>,
            \<lparr>descr_source = ''DB'', descr_min_log_level = LL_CNT\<rparr>]) 2 = Some (False, st2)
      \<and> log_get_src_level st2 ''NET'' = Some (LL_DEBUG, st2)"
    by blast
  with e have "log_get_src_level ?st1 ''NET'' = Some (LL_DEBUG, ?st1)"
    by auto
  with e show ?thesis
    by simp
qed

subsection \<open>Names that fit the stored field\<close>

text \<open>
  A name longer than \<open>LOG_SRC_STORED_MAX_SIZE\<close> is refused. For a name of fewer than
  \<open>LOG_SRC_STORED_MAX_SIZE\<close> bytes the second of two registrations overwrites the level
  in place: a table with at most one element for the name ends with exactly one, and the
  lookup returns the level of the second call.
\<close>

lemma log_register_too_long:
  "length source > LOG_SRC_STORED_MAX_SIZE \<Longrightarrow>
   log_register mem st source lvl = Some (False, st)"
  by (simp add: log_register_def)

lemma count_entries_store:
  "count_entries (st\<lparr>source_hm := store_min_log_level (source_hm st) a v\<rparr>) k =
   count_entries st k"
  by (simp add: count_entries_def filter_key_store)

lemma log_register_count:
  assumes "initialized st" and "mutex_usable st" and "valid_level lvl"
      and "length source < LOG_SRC_STORED_MAX_SIZE" and "mem \<or> registered st source"
      and "log_register mem st source lvl = Some (r, st1)"
  shows "count_entries st1 source = (if registered st source then count_entries st source else 1)"
proof (cases "HASH_FIND_STR (source_hm st) source")
  case None
  then have n: "\<not> registered st source"
    by (simp add: registered_iff_find)
  with assms(5) have mem by simp
  from n have z: "count_entries st source = 0"
    by (simp add: count_entries_zero_iff)
  from assms(1,3,4,6) None \<open>mem\<close>
  have "st1 = st\<lparr>source_hm := source_hm st @
                      [(next_block st, \<lparr>elt_source = source, elt_min_log_level = lvl\<rparr>)],
                    next_block := Suc (next_block st)\<rparr>"
    by (simp add: log_register_usable [OF assms(2)] valid_level_def take_fits)
  with n z show ?thesis
    by (simp add: count_entries_def)
next
  case (Some existing)
  then have y: "registered st source"
    by (simp add: registered_iff_find)
  from assms(1,3,4,6) Some
  have "st1 = st\<lparr>source_hm := store_min_log_level (source_hm st) (fst existing) lvl\<rparr>"
    by (simp add: log_register_usable [OF assms(2)] valid_level_def)
  with y show ?thesis
    by (simp add: count_entries_store)
qed

lemma log_register_twice_overwrites:
  assumes "initialized st" and "mutex_usable st" and "valid_level l1" and "valid_level l2"
      and "length source < LOG_SRC_STORED_MAX_SIZE" and "count_entries st source \<le> 1"
      and "m1 \<or> registered st source"
  shows "\<exists>st1 st2. log_register m1 st source l1 = Some (True, st1)
           \<and> log_register m2 st1 source l2 = Some (True, st2)
           \<and> count_entries st2 source = 1
           \<and> log_get_src_level st2 source = Some (l2, st2)"
proof -
  from log_register_then_lookup [OF assms(1,2,3,5,7)] obtain st1 where
    r1: "log_register m1 st source l1 = Some (True, st1)"
    and g1: "log_get_src_level st1 source = Some (l1, st1)"
    and i1: "initialized st1" and u1: "mutex_usable st1"
    by blast
  have c1: "count_entries st1 source = 1"
  proof -
    from log_register_count [OF assms(1,2,3,5,7) r1]
    have "count_entries st1 source = (if registered st source then count_entries st source else 1)" .
    moreover have "count_entries st source = 1" if "registered st source"
      using that assms(6) count_entries_zero_iff [of st source] by simp
    ultimately show ?thesis by simp
  qed
  then have reg1: "registered st1 source"
    using count_entries_zero_iff [of st1 source] by simp
  then have m: "m2 \<or> registered st1 source" by simp
  from log_register_then_lookup [OF i1 u1 assms(4,5) m] obtain st2 where
    r2: "log_register m2 st1 source l2 = Some (True, st2)"
    and g2: "log_get_src_level st2 source = Some (l2, st2)"
    by blast
  from log_register_count [OF i1 u1 assms(4,5) m r2] reg1 c1
  have "count_entries st2 source = 1" by simp
  with r1 r2 g2 show ?thesis
    by blast
qed

section \<open>Invariants of the table\<close>

lemma map_fst_store [simp]: "map fst (store_min_log_level hm a v) = map fst hm"
  by (induction hm) (auto simp: store_min_log_level_def)

lemma list_all_store:
  assumes "\<And>x. P x \<Longrightarrow> P (fst x, (snd x)\<lparr>elt_min_log_level := v\<rparr>)"
  shows "list_all P hm \<Longrightarrow> list_all P (store_min_log_level hm a v)"
  using assms by (fastforce simp: store_min_log_level_def list_all_iff)

lemma wf_heap_alt:
  "wf_heap st \<longleftrightarrow>
     distinct (map fst (source_hm st)) \<and> (\<forall>a \<in> set (map fst (source_hm st)). a < next_block st)"
  by (auto simp: wf_heap_def list_all_iff)

lemma map_of_store:
  "map_of (store_min_log_level hm a v) p =
     map_option (\<lambda>e. if p = a then e\<lparr>elt_min_log_level := v\<rparr> else e) (map_of hm p)"
  by (induction hm) (auto simp: store_min_log_level_def)

lemma read_source_store:
  "source_hm st1 = store_min_log_level (source_hm st) a v \<Longrightarrow> read_source st1 p = read_source st p"
  by (cases "map_of (source_hm st) p") (auto simp: read_source_def map_of_store)

lemma table_grows_levels_valid:
  "table_grows st st1 \<Longrightarrow> levels_valid st \<Longrightarrow> levels_valid st1"
proof (induction rule: table_grows.induct)
  case (same st1 st)
  then show ?case by (simp add: levels_valid_def)
next
  case (store v st1 st a)
  then show ?case
    unfolding levels_valid_def
    by (auto intro!: list_all_store)
next
  case (add e st1 st)
  then show ?case by (simp add: levels_valid_def)
next
  case (trans st st1 st2)
  then show ?case by simp
qed

lemma table_grows_wf_heap:
  "table_grows st st1 \<Longrightarrow> wf_heap st \<Longrightarrow> wf_heap st1"
proof (induction rule: table_grows.induct)
  case (same st1 st)
  then show ?case by (simp add: wf_heap_alt)
next
  case (store v st1 st a)
  then show ?case
    by (simp add: wf_heap_alt)
next
  case (add e st1 st)
  then show ?case
    by (auto simp: wf_heap_alt)
next
  case (trans st st1 st2)
  then show ?case by simp
qed

lemma table_grows_read_source:
  "table_grows st st1 \<Longrightarrow> read_source st p = Some n \<Longrightarrow> read_source st1 p = Some n"
proof (induction rule: table_grows.induct)
  case (same st1 st)
  then show ?case by (simp add: read_source_def)
next
  case (store v st1 st a)
  then show ?case by (simp add: read_source_store)
next
  case (add e st1 st)
  then show ?case by (auto simp: read_source_def map_add_def split: option.splits)
next
  case (trans st st1 st2)
  then show ?case by simp
qed

lemma log_register_cases:
  assumes "log_register mem st source lvl = Some (r, st1)"
  shows "st1 = st
       \<or> (valid_level lvl \<and> (\<exists>a. st1 = st\<lparr>source_hm := store_min_log_level (source_hm st) a lvl\<rparr>))
       \<or> (valid_level lvl \<and> (\<exists>n. st1 = st\<lparr>source_hm := source_hm st @
               [(next_block st, \<lparr>elt_source = n, elt_min_log_level = lvl\<rparr>)],
               next_block := Suc (next_block st)\<rparr>))"
  using assms
  by (cases st)
     (auto simp: log_register_def mutex_defs calloc_def HASH_ADD_STR_def valid_level_def
        split: if_splits option.splits bind_splits)

lemma log_register_grows:
  assumes "log_register mem st source lvl = Some (r, st1)"
  shows "table_grows st st1"
proof -
  from log_register_cases [OF assms] consider
      (same) "st1 = st"
    | (store) a where "valid_level lvl"
        "st1 = st\<lparr>source_hm := store_min_log_level (source_hm st) a lvl\<rparr>"
    | (add) n where "valid_level lvl"
        "st1 = st\<lparr>source_hm := source_hm st @
               [(next_block st, \<lparr>elt_source = n, elt_min_log_level = lvl\<rparr>)],
               next_block := Suc (next_block st)\<rparr>"
    by blast
  then show ?thesis
  proof cases
    case same
    then show ?thesis by (simp add: table_grows.same)
  next
    case store
    then show ?thesis
      by (intro table_grows.store [where v = lvl and a = a]) simp_all
  next
    case add
    then show ?thesis
      by (intro table_grows.add
            [where e = "\<lparr>elt_source = n, elt_min_log_level = lvl\<rparr>"]) simp_all
  qed
qed

lemma log_register_ex_loop_grows:
  "log_register_ex_loop mem st descr num i = Some (r, st1) \<Longrightarrow> table_grows st st1"
proof (induction mem st descr num i rule: log_register_ex_loop.induct)
  case (1 mem st descr num i)
  show ?case
  proof (cases "i < num \<and> i < length descr")
    case False
    with "1.prems" show ?thesis
      by (auto simp: log_register_ex_loop.simps [of mem st descr num i] table_grows.same
            split: if_splits)
  next
    case True
    with "1.prems" obtain ok st' where
      reg: "log_register (mem i) st (descr_source (descr ! i)) (descr_min_log_level (descr ! i))
              = Some (ok, st')"
      by (auto simp: log_register_ex_loop.simps [of mem st descr num i] split: option.splits)
    from reg have g: "table_grows st st'"
      by (rule log_register_grows)
    show ?thesis
    proof (cases ok)
      case True
      with \<open>i < num \<and> i < length descr\<close> reg "1.prems"
      have "log_register_ex_loop mem st' descr num (i + 1) = Some (r, st1)"
        by (simp add: log_register_ex_loop.simps [of mem st descr num i])
      with "1.IH" [of "(ok, st')" ok st'] \<open>i < num \<and> i < length descr\<close> reg True
      have "table_grows st' st1"
        by simp
      with g show ?thesis
        by (rule table_grows.trans)
    next
      case False
      with \<open>i < num \<and> i < length descr\<close> reg "1.prems" have "st1 = st'"
        by (simp add: log_register_ex_loop.simps [of mem st descr num i])
      with g show ?thesis by simp
    qed
  qed
qed

lemma call_grows:
  assumes "call c st = Some st1" and "\<forall>s. c \<noteq> Unregister s" and "\<forall>r. c \<noteq> Destroy r"
  shows "table_grows st st1"
proof (cases c)
  case (Init r l t)
  with assms(1) show ?thesis
    by (auto simp: log_init_def Let_def intro!: table_grows.same split: if_splits)
next
  case (SetLogLevel l)
  with assms(1) show ?thesis
    by (auto simp: log_set_log_level_def mutex_defs intro!: table_grows.same
          split: if_splits bind_splits)
next
  case (Register m s l)
  with assms(1) show ?thesis
    by (auto intro: log_register_grows)
next
  case (RegisterEx m d n)
  with assms(1) show ?thesis
    by (auto simp: log_register_ex_def table_grows.same intro: log_register_ex_loop_grows
          split: if_splits)
next
  case (Unregister s)
  with assms(2) show ?thesis by simp
next
  case (Destroy r)
  with assms(3) show ?thesis by simp
next
  case (WillBePrinted s l)
  with assms(1) show ?thesis
    by (auto simp: log_will_be_printed_def mutex_defs intro!: table_grows.same
          split: if_splits bind_splits)
next
  case (GetSrcLevel s)
  with assms(1) show ?thesis
    by (auto simp: log_get_src_level_def mutex_defs intro!: table_grows.same
          split: if_splits bind_splits)
next
  case GetGlobalLevel
  with assms(1) show ?thesis
    by (auto simp: log_get_global_level_def mutex_defs intro!: table_grows.same
          split: if_splits bind_splits)
next
  case (SrcDump m)
  with assms(1) show ?thesis
    by (auto simp: log_src_dump_def mutex_defs Let_def intro!: table_grows.same
          split: if_splits bind_splits)
qed

lemma log_unregister_cases:
  assumes "log_unregister st s = Some st1"
  shows "st1 = st
       \<or> (\<exists>x. HASH_FIND_STR (source_hm st) s = Some x
              \<and> st1 = st\<lparr>source_hm := HASH_DEL (source_hm st) (fst x)\<rparr>)"
  using assms
  by (cases st)
     (auto simp: log_unregister_def mutex_defs split: if_splits option.splits bind_splits)

lemma log_destroy_cases:
  assumes "log_destroy rc st = Some (r, st1)"
  shows "(source_hm st1 = source_hm st \<or> source_hm st1 = []) \<and> next_block st1 = next_block st"
  using assms
  by (auto simp: log_destroy_def mutex_defs Let_def split: if_splits bind_splits)

lemma levels_valid_HASH_DEL:
  "levels_valid st \<Longrightarrow> levels_valid (st\<lparr>source_hm := HASH_DEL (source_hm st) a\<rparr>)"
  by (simp add: levels_valid_def HASH_DEL_def list_all_iff)

lemma wf_heap_HASH_DEL:
  "wf_heap st \<Longrightarrow> wf_heap (st\<lparr>source_hm := HASH_DEL (source_hm st) a\<rparr>)"
  by (simp add: wf_heap_def HASH_DEL_def list_all_iff distinct_map_filter)

lemma call_levels_valid:
  assumes "levels_valid st" and "call c st = Some st1"
  shows "levels_valid st1"
proof -
  consider (unregister) s where "c = Unregister s"
    | (destroy) r where "c = Destroy r"
    | (other) "\<forall>s. c \<noteq> Unregister s" "\<forall>r. c \<noteq> Destroy r"
    by blast
  then show ?thesis
  proof cases
    case unregister
    with assms(2) have "log_unregister st s = Some st1" by simp
    from log_unregister_cases [OF this] assms(1) show ?thesis
      by (auto simp: levels_valid_HASH_DEL)
  next
    case destroy
    with assms(2) obtain b where "log_destroy r st = Some (b, st1)" by auto
    from log_destroy_cases [OF this] assms(1) show ?thesis
      by (auto simp: levels_valid_def)
  next
    case other
    from call_grows [OF assms(2) other] assms(1) show ?thesis
      by (rule table_grows_levels_valid)
  qed
qed

lemma call_wf_heap:
  assumes "wf_heap st" and "call c st = Some st1"
  shows "wf_heap st1"
proof -
  consider (unregister) s where "c = Unregister s"
    | (destroy) r where "c = Destroy r"
    | (other) "\<forall>s. c \<noteq> Unregister s" "\<forall>r. c \<noteq> Destroy r"
    by blast
  then show ?thesis
  proof cases
    case unregister
    with assms(2) have "log_unregister st s = Some st1" by simp
    from log_unregister_cases [OF this] assms(1) show ?thesis
      by (auto simp: wf_heap_HASH_DEL)
  next
    case destroy
    with assms(2) obtain b where "log_destroy r st = Some (b, st1)" by auto
    from log_destroy_cases [OF this] assms(1) show ?thesis
      by (auto simp: wf_heap_def)
  next
    case other
    from call_grows [OF assms(2) other] assms(1) show ?thesis
      by (rule table_grows_wf_heap)
  qed
qed

lemma reachable_invariants:
  "reachable st \<Longrightarrow> levels_valid st \<and> wf_heap st"
proof (induction rule: reachable.induct)
  case start
  show ?case by (simp add: log_ctx0_def levels_valid_def wf_heap_def)
next
  case (step st c st1)
  then show ?case by (auto intro: call_levels_valid call_wf_heap)
qed

lemma lookup_invalid_iff:
  assumes "levels_valid st" and "log_get_src_level st source = Some (r, st1)"
  shows "r = LL_INVALID \<longleftrightarrow> \<not> registered st source"
proof (cases "HASH_FIND_STR (source_hm st) source")
  case None
  with assms(2) show ?thesis
    by (auto simp: log_get_src_level_def mutex_defs registered_iff_find split: if_splits bind_splits)
next
  case (Some x)
  then have "x \<in> set (source_hm st)"
    by (simp add: HASH_FIND_STR_SomeD)
  with assms(1) have "valid_level (elt_min_log_level (snd x))"
    by (simp add: levels_valid_def list_all_iff)
  with Some assms(2) show ?thesis
    by (auto simp: log_get_src_level_def mutex_defs registered_iff_find valid_level_def
          split: if_splits bind_splits)
qed

text \<open>
  C10. Every call that returns keeps the levels of all elements of the table strictly
  between \<open>LL_INVALID\<close> and \<open>LL_CNT\<close>; so they are in every state reachable from
  the initial one by calls of the library (initialisation, global level, registration of
  one or many sources, unregistration, teardown, and the queries). In a reachable state,
  the level \<open>log_get_src_level\<close> returns is \<open>LL_INVALID\<close> exactly when the source
  is not registered; and the function returns whenever its lock can be taken.
\<close>

theorem registry_levels_valid:
  "(\<forall>st c st1. levels_valid st \<and> call c st = Some st1 \<longrightarrow> levels_valid st1)
   \<and> (\<forall>st. reachable st \<longrightarrow> levels_valid st)
   \<and> (\<forall>st source r st1. reachable st \<and> log_get_src_level st source = Some (r, st1) \<longrightarrow>
         (r = LL_INVALID \<longleftrightarrow> \<not> registered st source))
   \<and> (\<forall>st source. mutex_usable st \<longrightarrow> log_get_src_level st source \<noteq> None)"
proof (intro conjI allI impI)
  fix st c st1 assume "levels_valid st \<and> call c st = Some st1"
  then show "levels_valid st1"
    by (auto intro: call_levels_valid)
next
  fix st assume "reachable st"
  then show "levels_valid st"
    by (simp add: reachable_invariants)
next
  fix st source r st1
  assume h: "reachable st \<and> log_get_src_level st source = Some (r, st1)"
  then have "levels_valid st"
    by (simp add: reachable_invariants)
  with h show "r = LL_INVALID \<longleftrightarrow> \<not> registered st source"
    by (intro lookup_invalid_iff) simp_all
next
  fix st source assume "mutex_usable st"
  then show "log_get_src_level st source \<noteq> None"
    by (simp add: log_get_src_level_usable)
qed

theorem registry_levels_valid_witness:
  "levels_valid
     \<lparr>source_hm = [(1, \<lparr>elt_source = ''NET'', elt_min_log_level = LL_DEBUG\<rparr>)],
      ctx_min_log_level = LL_INFO, mutex = MUTEX_RAW, use_mutex = False,
      initialized = True, next_block = 2\<rparr>
   \<and> levels_valid
     \<lparr>source_hm = [], ctx_min_log_level = LL_INFO, mutex = MUTEX_RAW, use_mutex = False,
      initialized = True, next_block = 2\<rparr>
   \<and> log_get_src_level
     \<lparr>source_hm = [(1, \<lparr>elt_source = ''NET'', elt_min_log_level = LL_DEBUG\<rparr>)],
      ctx_min_log_level = LL_INFO, mutex = MUTEX_RAW, use_mutex = False,
      initialized = True, next_block = 2\<rparr> ''DB'' \<noteq> None
   \<and> \<not> registered
     \<lparr>source_hm = [(1, \<lparr>elt_source = ''NET'', elt_min_log_level = LL_DEBUG\<rparr>)],
      ctx_min_log_level = LL_INFO, mutex = MUTEX_RAW, use_mutex = False,
      initialized = True, next_block = 2\<rparr> ''DB''"
proof -
  let ?st0 = "\<lparr>source_hm = [], ctx_min_log_level = LL_INFO, mutex = MUTEX_RAW,
                use_mutex = False, initialized = True, next_block = 1\<rparr>"
  let ?st1 = "\<lparr>source_hm = [(1, \<lparr>elt_source = ''NET'', elt_min_log_level = LL_DEBUG\<rparr>)],
                ctx_min_log_level = LL_INFO, mutex = MUTEX_RAW, use_mutex = False,
                initialized = True, next_block = 2\<rparr>"
  let ?st2 = "\<lparr>source_hm = [], ctx_min_log_level = LL_INFO, mutex = MUTEX_RAW,
                use_mutex = False, initialized = True, next_block = 2\<rparr>"
  have c0: "call (Init 0 LL_INFO False) log_ctx0 = Some ?st0"
    by (simp add: log_init_def log_ctx0_def ll_defs)
  have c1: "call (Register True ''NET'' LL_DEBUG) ?st0 = Some ?st1"
    by (simp add: log_register_def mutex_defs calloc_def HASH_ADD_STR_def
          LOG_SRC_STORED_MAX_SIZE_def ll_defs)
  have c2: "call (Unregister ''NET'') ?st1 = Some ?st2"
    by (simp add: log_unregister_def mutex_defs HASH_DEL_def)
  have r: "reachable ?st1"
    by (rule reachable.step [OF reachable.step [OF reachable.start c0] c1])
  have u: "mutex_usable ?st1"
    by (simp add: mutex_usable_def)
  have g: "log_get_src_level ?st1 ''DB'' = Some (LL_INVALID, ?st1)"
    by (simp add: log_get_src_level_def mutex_defs)
  from registry_levels_valid r have v1: "levels_valid ?st1"
    by blast
  from registry_levels_valid v1 c2 have v2: "levels_valid ?st2"
    by blast
  from registry_levels_valid r g have n: "\<not> registered ?st1 ''DB''"
    by blast
  from registry_levels_valid u have "log_get_src_level ?st1 ''DB'' \<noteq> None"
    by blast
  with v1 v2 n show ?thesis
    by simp
qed

section \<open>Dumps\<close>

lemma map_of_HASH_DEL_other:
  "p \<noteq> a \<Longrightarrow> map_of (HASH_DEL hm a) p = map_of hm p"
  by (induction hm) (auto simp: HASH_DEL_def)

lemma log_unregister_read_source:
  assumes "wf_heap st" and "log_unregister st s = Some st1"
      and "read_source st p = Some n" and "n \<noteq> s"
  shows "read_source st1 p = Some n"
proof -
  from log_unregister_cases [OF assms(2)] consider
      (same) "st1 = st"
    | (del) x where "HASH_FIND_STR (source_hm st) s = Some x"
        "st1 = st\<lparr>source_hm := HASH_DEL (source_hm st) (fst x)\<rparr>"
    by blast
  then show ?thesis
  proof cases
    case same
    with assms(3) show ?thesis by simp
  next
    case del
    from assms(3) obtain e where e: "map_of (source_hm st) p = Some e" "elt_source e = n"
      by (auto simp: read_source_def)
    from del(1) have x: "x \<in> set (source_hm st)" "elt_source (snd x) = s"
      by (simp_all add: HASH_FIND_STR_SomeD)
    have "p \<noteq> fst x"
    proof
      assume "p = fst x"
      with x(1) have "(p, snd x) \<in> set (source_hm st)" by simp
      moreover from assms(1) have "distinct (map fst (source_hm st))"
        by (simp add: wf_heap_def)
      ultimately have "map_of (source_hm st) p = Some (snd x)"
        by (rule map_of_is_SomeI [rotated])
      with e x(2) assms(4) show False by simp
    qed
    with e del(2) show ?thesis
      by (simp add: read_source_def map_of_HASH_DEL_other)
  qed
qed

lemma call_read_source:
  assumes "wf_heap st" and "call c st = Some st1" and "keeps_dump names c"
      and "read_source st p = Some n" and "Some n \<in> set names"
  shows "read_source st1 p = Some n"
proof -
  consider (unregister) s where "c = Unregister s"
    | (destroy) r where "c = Destroy r"
    | (other) "\<forall>s. c \<noteq> Unregister s" "\<forall>r. c \<noteq> Destroy r"
    by blast
  then show ?thesis
  proof cases
    case unregister
    with assms(2) have u: "log_unregister st s = Some st1" by simp
    from unregister assms(3,5) have "n \<noteq> s" by auto
    with assms(1) u assms(4) show ?thesis
      by (rule log_unregister_read_source)
  next
    case destroy
    with assms(3) show ?thesis by simp
  next
    case other
    from call_grows [OF assms(2) other] assms(4) show ?thesis
      by (rule table_grows_read_source)
  qed
qed

lemma run_read_source:
  "wf_heap st \<Longrightarrow> run calls st = Some st2 \<Longrightarrow> list_all (keeps_dump names) calls \<Longrightarrow>
   read_source st p = Some n \<Longrightarrow> Some n \<in> set names \<Longrightarrow> read_source st2 p = Some n"
proof (induction calls arbitrary: st)
  case Nil
  then show ?case by simp
next
  case (Cons c cs)
  from Cons.prems(2) obtain st1 where c: "call c st = Some st1" and r: "run cs st1 = Some st2"
    by (auto split: option.splits)
  from Cons.prems(1) c have "wf_heap st1"
    by (rule call_wf_heap)
  moreover from Cons.prems(1) c Cons.prems(3,4,5) have "read_source st1 p = Some n"
    by (auto intro: call_read_source)
  ultimately show ?case
    using Cons.IH [of st1] r Cons.prems(3,5) by simp
qed

lemma log_src_dump_loop_map:
  "log_src_dump_loop n hm =
     map (\<lambda>x. \<lparr>descr_source = fst x, descr_min_log_level = elt_min_log_level (snd x)\<rparr>) (take n hm)"
  by (induction n hm rule: log_src_dump_loop.induct) simp_all

lemma log_src_dump_SomeD:
  assumes "log_src_dump mem st = Some (Some d, st1)"
  shows "st1 = st \<and>
     d = \<lparr>global_level = ctx_min_log_level st, num_log_src_descr = length (source_hm st),
          log_src_descrs =
            map (\<lambda>x. \<lparr>descr_source = fst x, descr_min_log_level = elt_min_log_level (snd x)\<rparr>)
              (source_hm st)\<rparr>"
  using assms
  by (cases st)
     (auto simp: log_src_dump_def mutex_defs HASH_COUNT_def Let_def log_src_dump_loop_map
        split: if_splits bind_splits)

lemma read_source_element:
  assumes "wf_heap st" and "x \<in> set (source_hm st)"
  shows "read_source st (fst x) = Some (elt_source (snd x))"
proof -
  from assms(1) have "distinct (map fst (source_hm st))"
    by (simp add: wf_heap_def)
  moreover from assms(2) have "(fst x, snd x) \<in> set (source_hm st)"
    by simp
  ultimately have "map_of (source_hm st) (fst x) = Some (snd x)"
    by (rule map_of_is_SomeI)
  then show ?thesis
    by (simp add: read_source_def)
qed

text \<open>
  C3, amended. A dump taken in a well-formed state holds the global level, the number of
  elements and, per element in table order, its level and a pointer to its name. After
  any later calls other than \<open>log_destroy\<close> and \<open>log_unregister\<close> of a name in the
  dump, a reader of the dump sees what it saw at the instant of the dump: the same
  global level and count, and for every entry the same name and level, whatever was
  registered, overwritten or set in between.
\<close>

theorem dump_contents_kept:
  assumes "wf_heap st" and "log_src_dump mem st = Some (Some d, st1)"
      and "list_all (keeps_dump (dump_names st1 d)) calls" and "run calls st1 = Some st2"
  shows "dump_contents st1 d =
           (ctx_min_log_level st, length (source_hm st),
            map (\<lambda>x. (Some (elt_source (snd x)), elt_min_log_level (snd x))) (source_hm st))
       \<and> dump_contents st2 d = dump_contents st1 d"
proof -
  from log_src_dump_SomeD [OF assms(2)] have st1: "st1 = st"
    and d: "d = \<lparr>global_level = ctx_min_log_level st, num_log_src_descr = length (source_hm st),
          log_src_descrs =
            map (\<lambda>x. \<lparr>descr_source = fst x, descr_min_log_level = elt_min_log_level (snd x)\<rparr>)
              (source_hm st)\<rparr>"
    by simp_all
  have at_dump: "read_source st (fst x) = Some (elt_source (snd x))" if "x \<in> set (source_hm st)" for x
    using assms(1) that by (rule read_source_element)
  have names: "dump_names st d = map (\<lambda>x. Some (elt_source (snd x))) (source_hm st)"
    by (simp add: dump_names_def d at_dump)
  have later: "read_source st2 (fst x) = Some (elt_source (snd x))" if "x \<in> set (source_hm st)" for x
  proof (rule run_read_source [OF assms(1) _ _ at_dump [OF that]])
    show "run calls st = Some st2"
      using assms(4) st1 by simp
    show "list_all (keeps_dump (dump_names st d)) calls"
      using assms(3) st1 by simp
    show "Some (elt_source (snd x)) \<in> set (dump_names st d)"
      using that by (simp add: names)
  qed
  have 1: "dump_contents st d =
           (ctx_min_log_level st, length (source_hm st),
            map (\<lambda>x. (Some (elt_source (snd x)), elt_min_log_level (snd x))) (source_hm st))"
    by (simp add: dump_contents_def d at_dump)
  have 2: "dump_contents st2 d = dump_contents st d"
    by (simp add: dump_contents_def d at_dump later)
  from 1 2 st1 show ?thesis
    by simp
qed


text \<open>
  C3 as stated fails: the dump holds the pointer \<^verbatim>\<open>elt->source\<close>, not a copy of the
  name. After \<open>log_init\<close>, \<open>log_register\<close> of \<open>NET\<close> and a dump, the dump reads
  \<open>NET\<close> at level \<open>LL_DEBUG\<close>; after \<open>log_unregister\<close> of \<open>NET\<close> the block the
  entry points to is freed and the name can no longer be read.
\<close>

theorem dump_names_dangle_counterexample:
  "run [Init 0 LL_INFO False, Register True ''NET'' LL_DEBUG] log_ctx0 =
     Some \<lparr>source_hm = [(1, \<lparr>elt_source = ''NET'', elt_min_log_level = LL_DEBUG\<rparr>)],
      ctx_min_log_level = LL_INFO, mutex = MUTEX_RAW, use_mutex = False,
      initialized = True, next_block = 2\<rparr>
   \<and> log_src_dump True
     \<lparr>source_hm = [(1, \<lparr>elt_source = ''NET'', elt_min_log_level = LL_DEBUG\<rparr>)],
      ctx_min_log_level = LL_INFO, mutex = MUTEX_RAW, use_mutex = False,
      initialized = True, next_block = 2\<rparr> =
     Some (Some \<lparr>global_level = LL_INFO, num_log_src_descr = 1,
      log_src_descrs = [\<lparr>descr_source = 1, descr_min_log_level = LL_DEBUG\<rparr>]\<rparr>,
     \<lparr>source_hm = [(1, \<lparr>elt_source = ''NET'', elt_min_log_level = LL_DEBUG\<rparr>)],
      ctx_min_log_level = LL_INFO, mutex = MUTEX_RAW, use_mutex = False,
      initialized = True, next_block = 2\<rparr>)
   \<and> dump_contents
     \<lparr>source_hm = [(1, \<lparr>elt_source = ''NET'', elt_min_log_level = LL_DEBUG\<rparr>)],
      ctx_min_log_level = LL_INFO, mutex = MUTEX_RAW, use_mutex = False,
      initialized = True, next_block = 2\<rparr>
     \<lparr>global_level = LL_INFO, num_log_src_descr = 1,
      log_src_descrs = [\<lparr>descr_source = 1, descr_min_log_level = LL_DEBUG\<rparr>]\<rparr> =
     (LL_INFO, 1, [(Some ''NET'', LL_DEBUG)])
   \<and> log_unregister
     \<lparr>source_hm = [(1, \<lparr>elt_source = ''NET'', elt_min_log_level = LL_DEBUG\<rparr>)],
      ctx_min_log_level = LL_INFO, mutex = MUTEX_RAW, use_mutex = False,
      initialized = True, next_block = 2\<rparr> ''NET'' =
     Some \<lparr>source_hm = [], ctx_min_log_level = LL_INFO, mutex = MUTEX_RAW, use_mutex = False,
      initialized = True, next_block = 2\<rparr>
   \<and> dump_contents
     \<lparr>source_hm = [], ctx_min_log_level = LL_INFO, mutex = MUTEX_RAW, use_mutex = False,
      initialized = True, next_block = 2\<rparr>
     \<lparr>global_level = LL_INFO, num_log_src_descr = 1,
      log_src_descrs = [\<lparr>descr_source = 1, descr_min_log_level = LL_DEBUG\<rparr>]\<rparr> =
     (LL_INFO, 1, [(None, LL_DEBUG)])"
  by (simp add: log_init_def log_ctx0_def log_register_def log_unregister_def
          log_set_log_level_def log_src_dump_def mutex_defs calloc_def HASH_ADD_STR_def
          HASH_DEL_def HASH_COUNT_def store_min_log_level_def LOG_SRC_STORED_MAX_SIZE_def
          ll_defs Let_def
        dump_contents_def read_source_def numeral_2_eq_2)

theorem dump_contents_kept_witness:
  "run [Register True ''DB'' LL_ERROR, SetLogLevel LL_WARNING,
          Register True ''NET'' LL_NONE, Unregister ''DB'']
     \<lparr>source_hm = [(1, \<lparr>elt_source = ''NET'', elt_min_log_level = LL_DEBUG\<rparr>)],
      ctx_min_log_level = LL_INFO, mutex = MUTEX_RAW, use_mutex = False,
      initialized = True, next_block = 2\<rparr> =
     Some \<lparr>source_hm = [(1, \<lparr>elt_source = ''NET'', elt_min_log_level = LL_NONE\<rparr>)],
      ctx_min_log_level = LL_WARNING, mutex = MUTEX_RAW, use_mutex = False,
      initialized = True, next_block = 3\<rparr>
   \<and> dump_contents
     \<lparr>source_hm = [(1, \<lparr>elt_source = ''NET'', elt_min_log_level = LL_NONE\<rparr>)],
      ctx_min_log_level = LL_WARNING, mutex = MUTEX_RAW, use_mutex = False,
      initialized = True, next_block = 3\<rparr>
     \<lparr>global_level = LL_INFO, num_log_src_descr = 1,
      log_src_descrs = [\<lparr>descr_source = 1, descr_min_log_level = LL_DEBUG\<rparr>]\<rparr> =
     (LL_INFO, 1, [(Some ''NET'', LL_DEBUG)])"
proof -
  let ?st = "\<lparr>source_hm = [(1, \<lparr>elt_source = ''NET'', elt_min_log_level = LL_DEBUG\<rparr>)],
      ctx_min_log_level = LL_INFO, mutex = MUTEX_RAW, use_mutex = False,
      initialized = True, next_block = 2\<rparr>"
  let ?d = "\<lparr>global_level = LL_INFO, num_log_src_descr = 1,
      log_src_descrs = [\<lparr>descr_source = 1, descr_min_log_level = LL_DEBUG\<rparr>]\<rparr>"
  let ?st2 = "\<lparr>source_hm = [(1, \<lparr>elt_source = ''NET'', elt_min_log_level = LL_NONE\<rparr>)],
      ctx_min_log_level = LL_WARNING, mutex = MUTEX_RAW, use_mutex = False,
      initialized = True, next_block = 3\<rparr>"
  let ?calls = "[Register True ''DB'' LL_ERROR, SetLogLevel LL_WARNING,
          Register True ''NET'' LL_NONE, Unregister ''DB'']"
  have w: "wf_heap ?st"
    by (simp add: wf_heap_def)
  have d: "log_src_dump True ?st = Some (Some ?d, ?st)"
    by (simp add: log_init_def log_ctx0_def log_register_def log_unregister_def
          log_set_log_level_def log_src_dump_def mutex_defs calloc_def HASH_ADD_STR_def
          HASH_DEL_def HASH_COUNT_def store_min_log_level_def LOG_SRC_STORED_MAX_SIZE_def
          ll_defs Let_def)
  have k: "list_all (keeps_dump (dump_names ?st ?d)) ?calls"
    by (simp add: dump_names_def read_source_def)
  have r: "run ?calls ?st = Some ?st2"
    by (simp add: log_init_def log_ctx0_def log_register_def log_unregister_def
          log_set_log_level_def log_src_dump_def mutex_defs calloc_def HASH_ADD_STR_def
          HASH_DEL_def HASH_COUNT_def store_min_log_level_def LOG_SRC_STORED_MAX_SIZE_def
          ll_defs Let_def numeral_2_eq_2 numeral_3_eq_3)
  from dump_contents_kept [OF w d k r] r show ?thesis
    by simp
qed

section \<open>Hex dumps\<close>

subsection \<open>Writes into the output array\<close>

lemma poke_out_of_bounds: "length buf \<le> i \<Longrightarrow> poke buf i c = None"
  by (simp add: poke_def)

lemma poke_in: "i < length buf \<Longrightarrow> poke buf i c = Some (buf[i := c])"
  by (simp add: poke_def)

lemma take_Suc_update: "p < length b \<Longrightarrow> take (Suc p) (b[p := c]) = take p b @ [c]"
  by (simp add: take_Suc_conv_app_nth)

lemma sprintf_at_take:
  "pos + length s < length buf \<Longrightarrow>
   \<exists>out. sprintf_at buf pos s = Some out \<and> length out = length buf
     \<and> take (pos + length s) out = take pos buf @ s \<and> out ! (pos + length s) = CHR 0x00"
proof (induction s arbitrary: buf pos)
  case Nil
  then show ?case by (simp add: poke_def)
next
  case (Cons c cs)
  let ?b = "buf[pos := c]"
  from Cons.prems have p: "poke buf pos c = Some ?b"
    by (simp add: poke_def)
  from Cons.prems have "Suc pos + length cs < length ?b"
    by simp
  from Cons.IH [OF this] obtain out where
    o: "sprintf_at ?b (Suc pos) cs = Some out" "length out = length ?b"
       "take (Suc pos + length cs) out = take (Suc pos) ?b @ cs"
       "out ! (Suc pos + length cs) = CHR 0x00"
    by blast
  from Cons.prems have "take (Suc pos) ?b = take pos buf @ [c]"
    by (simp add: take_Suc_update)
  with o p show ?case
    by simp
qed

lemma hex_digits_0 [simp]: "hex_digits 0 = []"
  by (simp add: hex_digits.simps [of 0])

lemma hex_digit_0 [simp]: "hex_digit 0 = CHR ''0''"
  by (simp add: hex_digit_def)

lemma hex_digits_length: "n < 16 ^ k \<Longrightarrow> length (hex_digits n) \<le> k"
proof (induction k arbitrary: n)
  case 0
  then show ?case by simp
next
  case (Suc k)
  show ?case
  proof (cases "n = 0")
    case True
    then show ?thesis by simp
  next
    case False
    from Suc.prems have "n div 16 < 16 ^ k"
      by (simp add: less_mult_imp_div_less mult.commute)
    from Suc.IH [OF this] False show ?thesis
      by (simp add: hex_digits.simps [of n])
  qed
qed

lemma hex_digits_byte:
  assumes "v < 256"
  shows "printf_X 2 v = [hex_digit (v div 16), hex_digit (v mod 16)]"
proof -
  consider (zero) "v = 0" | (one) "0 < v" "v < 16" | (two) "16 \<le> v"
    by linarith
  then show ?thesis
  proof cases
    case zero
    then show ?thesis
      by (simp add: printf_X_def numeral_2_eq_2)
  next
    case one
    then have "hex_digits v = [hex_digit v]"
      by (simp add: hex_digits.simps [of v])
    with one show ?thesis
      by (simp add: printf_X_def hex_digit_def)
  next
    case two
    with assms have d: "0 < v div 16" "v div 16 < 16"
      by simp_all
    then have "hex_digits (v div 16) = [hex_digit (v div 16)]"
      by (simp add: hex_digits.simps [of "v div 16"])
    with two show ?thesis
      by (simp add: printf_X_def hex_digits.simps [of v])
  qed
qed

lemma printf_X_group: "CHR '' '' # printf_X 2 (of_char b) = hex_group b"
  by (simp add: hex_digits_byte hex_group_def)

lemma length_hex_group [simp]: "length (hex_group b) = 3"
  by (simp add: hex_group_def)

lemma hex_loop_take:
  "ptr + (limit - i) \<le> length buf_in \<Longrightarrow> pos + 3 * (limit - i) < length buf_out \<Longrightarrow>
   \<exists>out. hex_loop buf_in ptr limit i buf_out pos = Some (out, pos + 3 * (limit - i))
     \<and> length out = length buf_out
     \<and> take (pos + 3 * (limit - i)) out =
         take pos buf_out @ concat (map hex_group (take (limit - i) (drop ptr buf_in)))"
proof (induction "limit - i" arbitrary: i ptr buf_out pos)
  case 0
  then show ?case
    by (simp add: hex_loop.simps [of buf_in ptr limit i buf_out pos])
next
  case (Suc n)
  then have lt: "i < limit" and inb: "ptr < length buf_in"
    by simp_all
  from Suc.prems(2) Suc.hyps(2) have "pos + length (hex_group (buf_in ! ptr)) < length buf_out"
    by simp
  from sprintf_at_take [OF this] obtain out1 where
    o1: "sprintf_at buf_out pos (hex_group (buf_in ! ptr)) = Some out1"
        "length out1 = length buf_out"
        "take (pos + 3) out1 = take pos buf_out @ hex_group (buf_in ! ptr)"
    by auto
  have n: "n = limit - (i + 1)"
    using Suc.hyps(2) by simp
  have "\<exists>out. hex_loop buf_in (ptr + 1) limit (i + 1) out1 (pos + 3)
           = Some (out, pos + 3 + 3 * (limit - (i + 1)))
     \<and> length out = length out1
     \<and> take (pos + 3 + 3 * (limit - (i + 1))) out =
         take (pos + 3) out1
         @ concat (map hex_group (take (limit - (i + 1)) (drop (ptr + 1) buf_in)))"
    using Suc.prems Suc.hyps(2) o1(2) by (intro Suc.hyps(1) [OF n]) simp_all
  then obtain out where
    o: "hex_loop buf_in (ptr + 1) limit (i + 1) out1 (pos + 3)
           = Some (out, pos + 3 + 3 * (limit - (i + 1)))"
       "length out = length out1"
       "take (pos + 3 + 3 * (limit - (i + 1))) out =
         take (pos + 3) out1
         @ concat (map hex_group (take (limit - (i + 1)) (drop (ptr + 1) buf_in)))"
    by blast
  have step: "hex_loop buf_in ptr limit i buf_out pos =
               hex_loop buf_in (ptr + 1) limit (i + 1) out1 (pos + 3)"
    using lt inb o1(1)
    by (simp add: hex_loop.simps [of buf_in ptr limit i buf_out pos] peek_def printf_X_group)
  have pos_eq: "pos + 3 + 3 * (limit - (i + 1)) = pos + 3 * (limit - i)"
    using lt by simp
  have chunk: "take (limit - i) (drop ptr buf_in) =
                 buf_in ! ptr # take (limit - (i + 1)) (drop (ptr + 1) buf_in)"
    using lt inb Suc.hyps(2)
    by (metis Cons_nth_drop_Suc Suc_eq_plus1 n take_Suc_Cons)
  show ?case
    using o o1(2,3) unfolding step pos_eq chunk by simp
qed


lemma pad_loop_take:
  "pos + 3 * (16 - j) \<le> length buf_out \<Longrightarrow>
   \<exists>out. pad_loop j buf_out pos = Some (out, pos + 3 * (16 - j))
     \<and> length out = length buf_out
     \<and> take (pos + 3 * (16 - j)) out = take pos buf_out @ replicate (3 * (16 - j)) CHR '' ''"
proof (induction "16 - j" arbitrary: j buf_out pos)
  case 0
  then show ?case
    by (simp add: pad_loop.simps [of j buf_out pos])
next
  case (Suc n)
  then have lt: "j < 16" by simp
  let ?out1 = "buf_out[pos := CHR '' '', pos + 1 := CHR '' '', pos + 2 := CHR '' '']"
  from Suc.prems Suc.hyps(2) have room: "pos + 2 < length buf_out"
    by simp
  have n: "n = 16 - (j + 1)"
    using Suc.hyps(2) by simp
  have "\<exists>out. pad_loop (j + 1) ?out1 (pos + 3) = Some (out, pos + 3 + 3 * (16 - (j + 1)))
     \<and> length out = length ?out1
     \<and> take (pos + 3 + 3 * (16 - (j + 1))) out =
         take (pos + 3) ?out1 @ replicate (3 * (16 - (j + 1))) CHR '' ''"
    using Suc.prems Suc.hyps(2) by (intro Suc.hyps(1) [OF n]) simp
  then obtain out where
    o: "pad_loop (j + 1) ?out1 (pos + 3) = Some (out, pos + 3 + 3 * (16 - (j + 1)))"
       "length out = length ?out1"
       "take (pos + 3 + 3 * (16 - (j + 1))) out =
         take (pos + 3) ?out1 @ replicate (3 * (16 - (j + 1))) CHR '' ''"
    by blast
  have step: "pad_loop j buf_out pos = pad_loop (j + 1) ?out1 (pos + 3)"
    using lt room by (simp add: pad_loop.simps [of j buf_out pos] poke_def)
  have three: "take (pos + 3) ?out1 = take pos buf_out @ replicate 3 CHR '' ''"
  proof -
    have "pos + 3 = Suc (Suc (Suc pos))" by simp
    then show ?thesis
      using room by (simp add: take_Suc_conv_app_nth nth_list_update numeral_3_eq_3)
  qed
  have pos_eq: "pos + 3 + 3 * (16 - (j + 1)) = pos + 3 * (16 - j)"
    using lt by simp
  have rep: "replicate 3 CHR '' '' @ replicate (3 * (16 - (j + 1))) CHR '' '' =
             replicate (3 * (16 - j)) CHR '' ''"
  proof -
    have "3 + 3 * (16 - (j + 1)) = 3 * (16 - j)"
      using lt by simp
    then show ?thesis
      by (metis replicate_add)
  qed
  show ?case
    using o three rep unfolding step pos_eq by simp
qed

lemma text_loop_take:
  "ptr + (limit - i) \<le> length buf_in \<Longrightarrow> pos + (limit - i) \<le> length buf_out \<Longrightarrow>
   \<exists>out. text_loop buf_in ptr limit i buf_out pos = Some (out, pos + (limit - i))
     \<and> length out = length buf_out
     \<and> take (pos + (limit - i)) out =
         take pos buf_out @ map text_char (take (limit - i) (drop ptr buf_in))"
proof (induction "limit - i" arbitrary: i ptr buf_out pos)
  case 0
  then show ?case
    by (simp add: text_loop.simps [of buf_in ptr limit i buf_out pos])
next
  case (Suc n)
  then have lt: "i < limit" and inb: "ptr < length buf_in" and room: "pos < length buf_out"
    by simp_all
  let ?out1 = "buf_out[pos := text_char (buf_in ! ptr)]"
  have n: "n = limit - (i + 1)"
    using Suc.hyps(2) by simp
  have "\<exists>out. text_loop buf_in (ptr + 1) limit (i + 1) ?out1 (pos + 1)
           = Some (out, pos + 1 + (limit - (i + 1)))
     \<and> length out = length ?out1
     \<and> take (pos + 1 + (limit - (i + 1))) out =
         take (pos + 1) ?out1
         @ map text_char (take (limit - (i + 1)) (drop (ptr + 1) buf_in))"
    using Suc.prems Suc.hyps(2) by (intro Suc.hyps(1) [OF n]) simp_all
  then obtain out where
    o: "text_loop buf_in (ptr + 1) limit (i + 1) ?out1 (pos + 1)
           = Some (out, pos + 1 + (limit - (i + 1)))"
       "length out = length ?out1"
       "take (pos + 1 + (limit - (i + 1))) out =
         take (pos + 1) ?out1
         @ map text_char (take (limit - (i + 1)) (drop (ptr + 1) buf_in))"
    by blast
  have step: "text_loop buf_in ptr limit i buf_out pos =
               text_loop buf_in (ptr + 1) limit (i + 1) ?out1 (pos + 1)"
    using lt inb room
    by (simp add: text_loop.simps [of buf_in ptr limit i buf_out pos] peek_def poke_def
          text_char_def)
  have one: "take (pos + 1) ?out1 = take pos buf_out @ [text_char (buf_in ! ptr)]"
    using room by (simp add: take_Suc_update)
  have pos_eq: "pos + 1 + (limit - (i + 1)) = pos + (limit - i)"
    using lt by simp
  have chunk: "take (limit - i) (drop ptr buf_in) =
                 buf_in ! ptr # take (limit - (i + 1)) (drop (ptr + 1) buf_in)"
    using lt inb Suc.hyps(2)
    by (metis Cons_nth_drop_Suc Suc_eq_plus1 n take_Suc_Cons)
  show ?case
    using o one unfolding step pos_eq chunk by simp
qed

lemma c_strlen_at_nul:
  "pos < length buf \<Longrightarrow> buf ! pos = CHR 0x00 \<Longrightarrow> c_strlen buf pos = Some 0"
  by (simp add: c_strlen_def Cons_nth_drop_Suc [symmetric])

lemma takeWhile_until:
  "c \<notin> set w \<Longrightarrow> takeWhile (\<lambda>x. x \<noteq> c) (w @ c # r) = w"
  by (induction w) auto

lemma c_str_take:
  assumes "take n buf = w" and "n < length buf" and "buf ! n = CHR 0x00"
      and "CHR 0x00 \<notin> set w"
  shows "c_strlen buf 0 = Some n \<and> c_str buf = Some w"
proof -
  have buf: "buf = w @ CHR 0x00 # drop (Suc n) buf"
    using assms(1,2,3) id_take_nth_drop [of n buf] by simp
  have len: "length w = n"
    using assms(1,2) by auto
  have tw: "takeWhile (\<lambda>c. c \<noteq> CHR 0x00) buf = w"
    using assms(4) by (subst buf) (rule takeWhile_until)
  have "CHR 0x00 \<in> set buf"
    by (subst buf) simp
  with tw len assms(1) show ?thesis
    by (simp add: c_strlen_def c_str_def)
qed

lemma hex_digit_not_nul: "n < 16 \<Longrightarrow> hex_digit n \<noteq> CHR 0x00"
proof -
  assume "n < 16"
  then have "hex_digit n \<in> set ''0123456789ABCDEF''"
    unfolding hex_digit_def by (intro nth_mem) simp
  then show ?thesis by auto
qed

lemma hex_digits_not_nul: "CHR 0x00 \<notin> set (hex_digits n)"
proof (induction n rule: hex_digits.induct)
  case (1 n)
  show ?case
  proof (cases "n = 0")
    case True
    then show ?thesis by simp
  next
    case False
    have "hex_digit (n mod 16) \<noteq> CHR 0x00"
      by (rule hex_digit_not_nul) simp
    with False "1.IH" show ?thesis
      by (auto simp: hex_digits.simps [of n])
  qed
qed

lemma printf_X_not_nul: "CHR 0x00 \<notin> set (printf_X prec n)"
  using hex_digits_not_nul [of n] by (auto simp: printf_X_def)

lemma hex_group_not_nul: "CHR 0x00 \<notin> set (hex_group b)"
proof -
  have "(of_char b :: nat) div 16 < 16"
    by (simp add: less_mult_imp_div_less)
  then have "hex_digit (of_char b div 16) \<noteq> CHR 0x00"
    by (rule hex_digit_not_nul)
  moreover have "hex_digit (of_char b mod 16) \<noteq> CHR 0x00"
    by (rule hex_digit_not_nul) simp
  ultimately show ?thesis
    by (auto simp: hex_group_def)
qed

lemma text_char_not_nul: "text_char b \<noteq> CHR 0x00"
proof (cases "isprint (of_char b)")
  case True
  then have "(of_char b :: int) \<noteq> 0"
    by (simp add: isprint_def)
  with True show ?thesis
    by (auto simp: text_char_def of_char_zero_iff)
next
  case False
  then show ?thesis by (simp add: text_char_def)
qed

lemma length_printf_X: "length (printf_X prec n) = max prec (length (hex_digits n))"
  by (simp add: printf_X_def)

lemma size_t_sub_eq:
  assumes "b \<le> a" and "a < SIZE_MOD"
  shows "size_t_sub a b = a - b"
proof -
  from assms have b: "b < SIZE_MOD" by simp
  have e: "a + SIZE_MOD - b = (a - b) + SIZE_MOD"
    using assms(1) by simp
  have d: "a - b < SIZE_MOD"
    using assms(2) by simp
  have "size_t_sub a b = (a + SIZE_MOD - b) mod SIZE_MOD"
    by (simp only: size_t_sub_def mod_less [OF assms(2)] mod_less [OF b])
  also have "\<dots> = (a - b) mod SIZE_MOD"
    by (simp only: e mod_add_self2)
  also have "\<dots> = a - b"
    by (simp only: mod_less [OF d])
  finally show ?thesis .
qed

lemma take_update3:
  assumes "p + 2 < length b"
  shows "take (p + 3) (b[p := x, p + 1 := y, p + 2 := z]) = take p b @ [x, y, z]"
proof -
  have e: "p + 3 = Suc (Suc (Suc p))" by simp
  show ?thesis
    unfolding e using assms by (simp add: take_Suc_conv_app_nth nth_list_update)
qed

lemma compose_hexdump_line_row:
  assumes "offset * 16 < buf_in_size" and "buf_in_size \<le> length buf_in"
      and "buf_in_size < SIZE_MOD" and "78 \<le> length buf_out"
  shows "\<exists>out. compose_hexdump_line buf_in buf_in_size offset buf_out = Some out
           \<and> length out = length buf_out
           \<and> c_strlen out 0 = Some (61 + min 16 (buf_in_size - offset * 16))
           \<and> c_str out =
               Some (take 10 (printf_X 8 (offset * 16) @ ''  '')
                     @ concat (map hex_group
                         (take (min 16 (buf_in_size - offset * 16)) (drop (offset * 16) buf_in)))
                     @ replicate (3 * (16 - min 16 (buf_in_size - offset * 16))) CHR '' ''
                     @ '' | ''
                     @ map text_char
                         (take (min 16 (buf_in_size - offset * 16)) (drop (offset * 16) buf_in)))"
proof -
  let ?off = "offset * 16"
  let ?s0 = "printf_X 8 ?off @ ''  ''"
  define limit where
    "limit = (if size_t_sub buf_in_size (size_t_mul offset 16) > 16 then 16
              else size_t_sub buf_in_size (size_t_mul offset 16))"
  let ?chunk = "take limit (drop ?off buf_in)"
  have off_lt: "?off < SIZE_MOD"
    using assms(1,3) by simp
  have mul: "size_t_mul offset 16 = ?off"
    using off_lt by (simp add: size_t_mul_def)
  have sub: "size_t_sub buf_in_size ?off = buf_in_size - ?off"
    using assms(1,3) by (intro size_t_sub_eq) simp_all
  have limit_min: "limit = min 16 (buf_in_size - ?off)"
    by (simp add: limit_def mul sub)
  have limit_le: "limit \<le> 16" and limit_in: "?off + limit \<le> length buf_in"
    using assms(1,2) by (simp_all add: limit_min)
  \<comment> \<open>the offset field\<close>
  have "?off < 16 ^ 16"
    using off_lt by (simp add: SIZE_MOD_def)
  then have "length (hex_digits ?off) \<le> 16"
    by (rule hex_digits_length)
  then have len0: "10 \<le> length ?s0" "length ?s0 \<le> 18"
    by (simp_all add: length_printf_X)
  with assms(4) have "0 + length ?s0 < length buf_out"
    by simp
  from sprintf_at_take [OF this] obtain out0 where
    o0: "sprintf_at buf_out 0 ?s0 = Some out0" "length out0 = length buf_out"
        "take (length ?s0) out0 = ?s0"
    by auto
  have t0: "take 10 out0 = take 10 ?s0"
  proof -
    have "take 10 out0 = take 10 (take (length ?s0) out0)"
      using len0(1) by (simp add: min_def)
    then show ?thesis
      by (simp only: o0(3))
  qed
  \<comment> \<open>the bytes in hexadecimal\<close>
  have "\<exists>out. hex_loop buf_in ?off limit 0 out0 10 = Some (out, 10 + 3 * (limit - 0))
     \<and> length out = length out0
     \<and> take (10 + 3 * (limit - 0)) out =
         take 10 out0 @ concat (map hex_group (take (limit - 0) (drop ?off buf_in)))"
    using limit_le limit_in assms(4) o0(2) by (intro hex_loop_take) simp_all
  then obtain out1 where
    o1: "hex_loop buf_in ?off limit 0 out0 10 = Some (out1, 10 + 3 * limit)"
        "length out1 = length buf_out"
        "take (10 + 3 * limit) out1 = take 10 ?s0 @ concat (map hex_group ?chunk)"
    using o0(2) t0 by auto
  \<comment> \<open>the blanks of a short row\<close>
  have p58: "10 + 3 * limit + 3 * (16 - limit) = 58"
    using limit_le by simp
  have "\<exists>out. pad_loop limit out1 (10 + 3 * limit)
           = Some (out, 10 + 3 * limit + 3 * (16 - limit))
     \<and> length out = length out1
     \<and> take (10 + 3 * limit + 3 * (16 - limit)) out =
         take (10 + 3 * limit) out1 @ replicate (3 * (16 - limit)) CHR '' ''"
    using assms(4) o1(2) p58 by (intro pad_loop_take) simp
  then obtain out2 where
    o2: "pad_loop limit out1 (10 + 3 * limit) = Some (out2, 58)"
        "length out2 = length buf_out"
        "take 58 out2 = take 10 ?s0 @ concat (map hex_group ?chunk)
                        @ replicate (3 * (16 - limit)) CHR '' ''"
    using o1(2,3) p58 by auto
  \<comment> \<open>the separator\<close>
  let ?out5 = "out2[58 := CHR '' '', 59 := CHR ''|'', 60 := CHR '' '']"
  have len5: "length ?out5 = length buf_out"
    using o2(2) by simp
  have t5: "take 61 ?out5 = take 58 out2 @ '' | ''"
    using take_update3 [of 58 out2 "CHR '' ''" "CHR ''|''" "CHR '' ''"] assms(4) o2(2)
    by simp
  \<comment> \<open>the bytes as text\<close>
  have "\<exists>out. text_loop buf_in ?off limit 0 ?out5 61 = Some (out, 61 + (limit - 0))
     \<and> length out = length ?out5
     \<and> take (61 + (limit - 0)) out =
         take 61 ?out5 @ map text_char (take (limit - 0) (drop ?off buf_in))"
    using limit_le limit_in assms(4) len5 by (intro text_loop_take) simp_all
  then obtain out6 where
    o6: "text_loop buf_in ?off limit 0 ?out5 61 = Some (out6, 61 + limit)"
        "length out6 = length buf_out"
        "take (61 + limit) out6 = take 61 ?out5 @ map text_char ?chunk"
    using len5 by auto
  \<comment> \<open>the terminator\<close>
  let ?out7 = "out6[61 + limit := CHR 0x00]"
  let ?row = "take 10 ?s0 @ concat (map hex_group ?chunk)
              @ replicate (3 * (16 - limit)) CHR '' '' @ '' | '' @ map text_char ?chunk"
  have end_lt: "61 + limit < length out6"
    using limit_le assms(4) o6(2) by simp
  have t7: "take (61 + limit) ?out7 = ?row"
    using o6(3) t5 o2(3) by simp
  have nul7: "?out7 ! (61 + limit) = CHR 0x00"
    using end_lt by simp
  have len7: "length ?out7 = length buf_out"
    using o6(2) by simp
  have cs: "c_strlen ?out7 (61 + limit) = Some 0"
    using end_lt nul7 by (intro c_strlen_at_nul) simp_all
  have pk3: "poke out2 58 (CHR '' '') = Some (out2[58 := CHR '' ''])"
    using assms(4) o2(2) by (simp add: poke_def)
  have pk4: "poke (out2[58 := CHR '' '']) 59 (CHR ''|'') =
             Some (out2[58 := CHR '' '', 59 := CHR ''|''])"
    using assms(4) o2(2) by (simp add: poke_def)
  have pk5: "poke (out2[58 := CHR '' '', 59 := CHR ''|'']) 60 (CHR '' '') = Some ?out5"
    using assms(4) o2(2) by (simp add: poke_def)
  have pk7: "poke out6 (61 + limit) (CHR 0x00) = Some ?out7"
    using end_lt by (simp add: poke_def)
  have run: "compose_hexdump_line buf_in buf_in_size offset buf_out = Some ?out7"
    unfolding compose_hexdump_line_def Let_def limit_def [symmetric]
    by (simp add: mul LOG_RAW_ADDR_FIELD_WIDTH_def o0(1) o1(1) o2(1) pk3 pk4 pk5 o6(1) pk7 cs)
  have no_nul: "CHR 0x00 \<notin> set ?row"
  proof -
    have "CHR 0x00 \<notin> set ?s0"
      using printf_X_not_nul [of 8 ?off] by simp
    then have "CHR 0x00 \<notin> set (take 10 ?s0)"
      by (meson in_set_takeD)
    moreover have "CHR 0x00 \<notin> set (concat (map hex_group ?chunk))"
      using hex_group_not_nul by auto
    moreover have "CHR 0x00 \<notin> set (map text_char ?chunk)"
    proof -
      have "CHR 0x00 \<notin> text_char ` set ?chunk"
        by (metis imageE text_char_not_nul)
      then show ?thesis by simp
    qed
    ultimately show ?thesis
      by auto
  qed
  have str: "c_strlen ?out7 0 = Some (61 + limit) \<and> c_str ?out7 = Some ?row"
    using t7 end_lt nul7 no_nul by (intro c_str_take) simp_all
  show ?thesis
    unfolding limit_min [symmetric]
    using run len7 str by (intro exI [of _ ?out7]) simp
qed

subsection \<open>Rows of log\_raw\<close>

lemma length_concat_hex_group [simp]: "length (concat (map hex_group xs)) = 3 * length xs"
  by (induction xs) simp_all

lemma printf_X_8_0: "printf_X 8 0 = ''00000000''"
  by (simp add: printf_X_def eval_nat_numeral)

lemma printf_X_8_16: "printf_X 8 16 = ''00000010''"
proof -
  have h: "hex_digits 16 = ''10''"
    by (simp add: hex_digits.simps [of 16] hex_digits.simps [of "Suc 0"] hex_digit_def)
  show ?thesis
    unfolding printf_X_def h by (simp add: eval_nat_numeral)
qed

lemma compose_hexdump_line_hexdump_row:
  assumes "offset * 16 < buf_in_size" and "buf_in_size \<le> length buf_in"
      and "buf_in_size < SIZE_MOD" and "78 \<le> length buf_out" and "offset * 16 < 16 ^ 8"
  shows "\<exists>out. compose_hexdump_line buf_in buf_in_size offset buf_out = Some out
           \<and> length out = length buf_out
           \<and> c_str out =
               Some (hexdump_row offset
                 (take (min 16 (buf_in_size - offset * 16)) (drop (offset * 16) buf_in)))"
proof -
  from assms(5) have "length (hex_digits (offset * 16)) \<le> 8"
    by (rule hex_digits_length)
  then have "length (printf_X 8 (offset * 16)) = 8"
    by (simp add: length_printf_X)
  then have t: "take 10 (printf_X 8 (offset * 16) @ ''  '') = printf_X 8 (offset * 16) @ ''  ''"
    by simp
  from compose_hexdump_line_row [OF assms(1-4)] assms(1,2) show ?thesis
    unfolding t hexdump_row_def by (auto simp: min_def)
qed

lemma log_raw_loop_twenty:
  assumes "length bs = 20" and "length hexdump_line = 100"
  shows "\<exists>line. log_raw_loop bs 20 0 hexdump_line err =
           Some (line, err @ hexdump_row 0 (take 16 bs) @ [CHR 0x0A]
                       @ hexdump_row 1 (drop 16 bs) @ [CHR 0x0A])"
proof -
  have m: "(20::nat) < SIZE_MOD"
    by (simp add: SIZE_MOD_def)
  have "\<exists>out. compose_hexdump_line bs 20 0 hexdump_line = Some out
           \<and> length out = length hexdump_line
           \<and> c_str out = Some (hexdump_row 0 (take (min 16 (20 - 0 * 16)) (drop (0 * 16) bs)))"
    using assms m by (intro compose_hexdump_line_hexdump_row) simp_all
  then obtain out0 where
    c0: "compose_hexdump_line bs 20 0 hexdump_line = Some out0" "length out0 = 100"
        "c_str out0 = Some (hexdump_row 0 (take 16 bs))"
    using assms(2) by auto
  have "\<exists>out. compose_hexdump_line bs 20 1 out0 = Some out
           \<and> length out = length out0
           \<and> c_str out = Some (hexdump_row 1 (take (min 16 (20 - 1 * 16)) (drop (1 * 16) bs)))"
    using assms(1) m c0(2) by (intro compose_hexdump_line_hexdump_row) simp_all
  then obtain out1 where
    c1: "compose_hexdump_line bs 20 1 out0 = Some out1"
        "c_str out1 = Some (hexdump_row 1 (drop 16 bs))"
    using assms(1) by auto
  have a0: "size_t_add 0 16 = 16" and a1: "size_t_add 16 16 = 32"
    by (simp_all add: size_t_add_def SIZE_MOD_def)
  have s2: "log_raw_loop bs 20 32 out1 e = Some (out1, e)" for e
    by (subst log_raw_loop.simps) simp
  have s1: "log_raw_loop bs 20 16 out0 e =
              Some (out1, e @ hexdump_row 1 (drop 16 bs) @ [CHR 0x0A])" for e
    by (subst log_raw_loop.simps) (simp add: c1 [unfolded One_nat_def] a1 s2)
  have s0: "log_raw_loop bs 20 0 hexdump_line err =
              Some (out1, (err @ hexdump_row 0 (take 16 bs) @ [CHR 0x0A])
                          @ hexdump_row 1 (drop 16 bs) @ [CHR 0x0A])"
    by (subst log_raw_loop.simps) (simp add: c0 a0 s1)
  then show ?thesis
    by simp
qed

lemma is_log_allowed_locked:
  "is_log_allowed (if c then st\<lparr>mutex := m\<rparr> else st) source lvl = is_log_allowed st source lvl"
  by (simp add: is_log_allowed_def)

lemma lock_usable:
  "mutex_usable st \<Longrightarrow>
   lock_mutex_if_it_needs st = Some (if use_mutex st then st\<lparr>mutex := MUTEX_LOCKED\<rparr> else st)"
  by (simp add: mutex_defs)

lemma unlock_locked:
  "mutex_usable st \<Longrightarrow>
   unlock_mutex_if_it_needs (if use_mutex st then st\<lparr>mutex := MUTEX_LOCKED\<rparr> else st) = Some st"
  by (cases st) (auto simp: mutex_defs)

lemma log_raw_usable:
  assumes "mutex_usable st" and "initialized st" and "is_log_allowed st source LL_RAW = Some True"
  shows "log_raw cfg now st source file line function (Some bs) len hexdump_line =
     map_option (\<lambda>r. (snd r, st))
       (log_raw_loop bs len 0 hexdump_line
          (snprintf 8192
             (compose_log_prefix cfg now 128 source file line function LL_RAW @ [CHR 0x0A])))"
proof (cases "log_raw_loop bs len 0 hexdump_line
          (snprintf 8192
             (compose_log_prefix cfg now 128 source file line function LL_RAW @ [CHR 0x0A]))")
  case None
  then show ?thesis
    using assms(2,3)
    by (simp add: log_raw_def lock_usable [OF assms(1)] is_log_allowed_locked Let_def)
next
  case (Some r)
  then show ?thesis
    using assms(2,3)
    by (simp add: log_raw_def lock_usable [OF assms(1)] unlock_locked [OF assms(1)]
          is_log_allowed_locked Let_def)
qed

lemma hex_digit_not_newline: "n < 16 \<Longrightarrow> hex_digit n \<noteq> CHR 0x0A"
proof -
  assume "n < 16"
  then have "hex_digit n \<in> set ''0123456789ABCDEF''"
    unfolding hex_digit_def by (intro nth_mem) simp
  then show ?thesis by auto
qed

lemma hex_digits_no_newline: "CHR 0x0A \<notin> set (hex_digits n)"
proof (induction n rule: hex_digits.induct)
  case (1 n)
  show ?case
  proof (cases "n = 0")
    case True
    then show ?thesis by simp
  next
    case False
    have "hex_digit (n mod 16) \<noteq> CHR 0x0A"
      by (rule hex_digit_not_newline) simp
    with False "1.IH" show ?thesis
      by (auto simp: hex_digits.simps [of n])
  qed
qed

lemma hex_group_no_newline: "CHR 0x0A \<notin> set (hex_group b)"
proof -
  have "(of_char b :: nat) div 16 < 16"
    by (simp add: less_mult_imp_div_less)
  then have "hex_digit (of_char b div 16) \<noteq> CHR 0x0A"
    by (rule hex_digit_not_newline)
  moreover have "hex_digit (of_char b mod 16) \<noteq> CHR 0x0A"
    by (rule hex_digit_not_newline) simp
  ultimately show ?thesis
    by (auto simp: hex_group_def)
qed

lemma text_char_not_newline: "text_char b \<noteq> CHR 0x0A"
proof (cases "isprint (of_char b)")
  case True
  have "(of_char (CHR 0x0A) :: int) = 10" by simp
  with True have "b \<noteq> CHR 0x0A"
    by (auto simp: isprint_def)
  with True show ?thesis
    by (simp add: text_char_def)
next
  case False
  then show ?thesis by (simp add: text_char_def)
qed

lemma hexdump_row_one_line: "CHR 0x0A \<notin> set (hexdump_row row chunk)"
proof -
  have "CHR 0x0A \<notin> set (printf_X 8 (row * 16))"
    using hex_digits_no_newline [of "row * 16"] by (auto simp: printf_X_def)
  moreover have "CHR 0x0A \<notin> set (concat (map hex_group chunk))"
    using hex_group_no_newline by auto
  moreover have "CHR 0x0A \<notin> text_char ` set chunk"
    by (metis imageE text_char_not_newline)
  ultimately show ?thesis
    by (auto simp: hexdump_row_def)
qed

text \<open>
  C8. When the context is initialised, the lock can be taken and the gate allows
  \<open>LL_RAW\<close> for the source, \<open>log_raw\<close> of a buffer of 20 bytes writes the prefix
  line and exactly two rows, each one line. Row 0 is the offset \<open>00000000\<close>, two
  blanks, 16 groups of a blank and two upper-case hexadecimal digits, the separator and
  the 16 bytes as text. Row 1 is the offset \<open>00000010\<close> (16), two blanks, 4 such
  groups, 12 groups of three blanks, the separator and a text field of exactly 4
  characters with no padding. A byte that is not printable shows as a dot.
\<close>

theorem log_raw_twenty_bytes:
  assumes "initialized st" and "mutex_usable st"
      and "is_log_allowed st source LL_RAW = Some True"
      and "length bs = 20" and "length hexdump_line = 100"
  shows "log_raw cfg now st source file line function (Some bs) 20 hexdump_line =
           Some (snprintf 8192
                   (compose_log_prefix cfg now 128 source file line function LL_RAW @ [CHR 0x0A])
                 @ hexdump_row 0 (take 16 bs) @ [CHR 0x0A]
                 @ hexdump_row 1 (drop 16 bs) @ [CHR 0x0A], st)
       \<and> CHR 0x0A \<notin> set (hexdump_row 0 (take 16 bs))
       \<and> CHR 0x0A \<notin> set (hexdump_row 1 (drop 16 bs))
       \<and> hexdump_row 0 (take 16 bs) =
           ''00000000  '' @ concat (map hex_group (take 16 bs)) @ '' | ''
           @ map text_char (take 16 bs)
       \<and> length (take 16 bs) = 16
       \<and> length (concat (map hex_group (take 16 bs))) = 16 * 3
       \<and> hexdump_row 1 (drop 16 bs) =
           ''00000010  '' @ concat (map hex_group (drop 16 bs)) @ replicate (12 * 3) CHR '' ''
           @ '' | '' @ map text_char (drop 16 bs)
       \<and> length (concat (map hex_group (drop 16 bs))) = 4 * 3
       \<and> length (map text_char (drop 16 bs)) = 4"
proof -
  let ?prefix = "snprintf 8192
                   (compose_log_prefix cfg now 128 source file line function LL_RAW @ [CHR 0x0A])"
  from log_raw_loop_twenty [OF assms(4,5), of ?prefix] obtain l where
    "log_raw_loop bs 20 0 hexdump_line ?prefix =
       Some (l, ?prefix @ hexdump_row 0 (take 16 bs) @ [CHR 0x0A]
                @ hexdump_row 1 (drop 16 bs) @ [CHR 0x0A])"
    by blast
  then have run: "log_raw cfg now st source file line function (Some bs) 20 hexdump_line =
           Some (?prefix @ hexdump_row 0 (take 16 bs) @ [CHR 0x0A]
                 @ hexdump_row 1 (drop 16 bs) @ [CHR 0x0A], st)"
    by (simp add: log_raw_usable [OF assms(2,1,3)])
  have r0: "hexdump_row 0 (take 16 bs) =
           ''00000000  '' @ concat (map hex_group (take 16 bs)) @ '' | ''
           @ map text_char (take 16 bs)"
    using assms(4) by (simp add: hexdump_row_def printf_X_8_0)
  have r1: "hexdump_row 1 (drop 16 bs) =
           ''00000010  '' @ concat (map hex_group (drop 16 bs)) @ replicate (12 * 3) CHR '' ''
           @ '' | '' @ map text_char (drop 16 bs)"
    using assms(4) by (simp add: hexdump_row_def printf_X_8_16)
  from run r0 r1 assms(4) hexdump_row_one_line [of 0 "take 16 bs"]
    hexdump_row_one_line [of 1 "drop 16 bs"]
  show ?thesis
    by simp
qed

text \<open>
  C9. For every input buffer, every size within the buffer (and within \<open>size_t\<close>) and
  every row offset with \<open>offset * 16\<close> below the size, as \<open>log_raw\<close> calls it,
  \<open>compose_hexdump_line\<close> on an output array of 100 bytes returns with every write
  inside the array, and the string it leaves has, with its terminating NUL, at most 78
  bytes.
\<close>

theorem compose_hexdump_line_fits:
  assumes "offset * 16 < buf_in_size" and "buf_in_size \<le> length buf_in"
      and "buf_in_size < SIZE_MOD" and "length buf_out = 100"
  shows "\<exists>out n. compose_hexdump_line buf_in buf_in_size offset buf_out = Some out
           \<and> length out = 100 \<and> c_strlen out 0 = Some n \<and> n + 1 \<le> 78"
proof -
  from assms(4) have "78 \<le> length buf_out"
    by simp
  from compose_hexdump_line_row [OF assms(1-3) this] assms(4) show ?thesis
    by auto
qed

theorem compose_hexdump_line_fits_witness:
  "(\<exists>out n. compose_hexdump_line ''Hello, world! 0123456789'' 24 0 (replicate 100 CHR ''x'')
              = Some out
           \<and> length out = 100 \<and> c_strlen out 0 = Some n \<and> n + 1 \<le> 78)
   \<and> (\<exists>out n. compose_hexdump_line ''Hello, world! 0123456789'' 24 1 (replicate 100 CHR ''x'')
              = Some out
           \<and> length out = 100 \<and> c_strlen out 0 = Some n \<and> n + 1 \<le> 78)"
proof -
  have h: "0 * 16 < (24::nat)" "1 * 16 < (24::nat)"
      "24 \<le> length ''Hello, world! 0123456789''" "24 < SIZE_MOD"
      "length (replicate 100 CHR ''x'') = 100"
    by (simp_all add: SIZE_MOD_def)
  from compose_hexdump_line_fits [OF h(1) h(3) h(4) h(5)]
       compose_hexdump_line_fits [OF h(2) h(3) h(4) h(5)]
  show ?thesis
    by (rule conjI)
qed

theorem log_raw_twenty_bytes_witness:
  "log_raw \<lparr>DO_LOG_FUNCTION_NAME = False, DO_LOG_CURRENT_TIME = False\<rparr> []
     \<lparr>source_hm = [(1, \<lparr>elt_source = ''NET'', elt_min_log_level = LL_RAW\<rparr>)],
      ctx_min_log_level = LL_RAW, mutex = MUTEX_RAW, use_mutex = False,
      initialized = True, next_block = 2\<rparr>
     ''NET'' ''src/main.c'' ''42'' ''main''
     (Some (''Hello, world!'' @ [CHR 0x0A, CHR 0x00, CHR 0xFF] @ ''1234'')) 20
     (replicate 100 CHR ''x'') =
   Some (''[R][NET             ][main.c              :   42]'' @ [CHR 0x0A]
         @ ''00000000   48 65 6C 6C 6F 2C 20 77 6F 72 6C 64 21 0A 00 FF | Hello, world!...''
         @ [CHR 0x0A]
         @ ''00000010   31 32 33 34                                     | 1234''
         @ [CHR 0x0A],
     \<lparr>source_hm = [(1, \<lparr>elt_source = ''NET'', elt_min_log_level = LL_RAW\<rparr>)],
      ctx_min_log_level = LL_RAW, mutex = MUTEX_RAW, use_mutex = False,
      initialized = True, next_block = 2\<rparr>)"
proof -
  let ?cfg = "\<lparr>DO_LOG_FUNCTION_NAME = False, DO_LOG_CURRENT_TIME = False\<rparr>"
  let ?st = "\<lparr>source_hm = [(1, \<lparr>elt_source = ''NET'', elt_min_log_level = LL_RAW\<rparr>)],
      ctx_min_log_level = LL_RAW, mutex = MUTEX_RAW, use_mutex = False,
      initialized = True, next_block = 2\<rparr>"
  let ?bs = "''Hello, world!'' @ [CHR 0x0A, CHR 0x00, CHR 0xFF] @ ''1234''"
  have h: "initialized ?st" "mutex_usable ?st" "is_log_allowed ?st ''NET'' LL_RAW = Some True"
      "length ?bs = 20" "length (replicate 100 CHR ''x'') = 100"
    by (simp_all add: mutex_usable_def is_log_allowed_def check_log_level_def ll_defs)
  have p: "snprintf 8192
       (compose_log_prefix ?cfg [] 128 ''NET'' ''src/main.c'' ''42'' ''main'' LL_RAW @ [CHR 0x0A]) =
     ''[R][NET             ][main.c              :   42]'' @ [CHR 0x0A]"
    by code_simp
  have r0: "hexdump_row 0 (take 16 ?bs) =
     ''00000000   48 65 6C 6C 6F 2C 20 77 6F 72 6C 64 21 0A 00 FF | Hello, world!...''"
    by code_simp
  have r1: "hexdump_row 1 (drop 16 ?bs) =
     ''00000010   31 32 33 34                                     | 1234''"
    by code_simp
  from log_raw_twenty_bytes [OF h, of ?cfg "[]" "''src/main.c''" "''42''" "''main''"]
  have "log_raw ?cfg [] ?st ''NET'' ''src/main.c'' ''42'' ''main'' (Some ?bs) 20
          (replicate 100 CHR ''x'') =
        Some (snprintf 8192
                (compose_log_prefix ?cfg [] 128 ''NET'' ''src/main.c'' ''42'' ''main'' LL_RAW
                 @ [CHR 0x0A])
              @ hexdump_row 0 (take 16 ?bs) @ [CHR 0x0A]
              @ hexdump_row 1 (drop 16 ?bs) @ [CHR 0x0A], ?st)"
    by (rule conjunct1)
  then show ?thesis
    unfolding p r0 r1 by simp
qed

end
